theory Spec2Isabelle
  imports Main "HOL-Library.AList"
begin

section \<open>Values, errors and effects\<close>

text \<open>
  The exceptions that \<^verbatim>\<open>atomkraft/chain/testnet.py\<close> and its collaborators can raise.
  The first six are Python's own; the others are the failure classes of the collaborators
  (the \<^verbatim>\<open>Node\<close> class, the port helper, the gRPC stubs), named as the specification
  names them.  The specification files Python's \<^verbatim>\<open>ValueError\<close> of
  \<^verbatim>\<open>broadcast_transaction\<close> under its class \<^verbatim>\<open>ConfigurationError\<close>.
\<close>

datatype error =
    AttributeError | KeyError | IndexError | ValueError | StopIteration | OSError
  | MissingKey | ResourceExhausted | BootstrapFailure | ProcessError | TransportError

datatype AccountId = IdInt int | IdStr string

datatype cfg_value = VStr string | VInt int | VBool bool | VTable "(string \<times> cfg_value) list"

record Account =
  acc_name :: AccountId
  acc_group :: string
  acc_seed :: "string option"
  mnemonic :: "string option"

record Coin =
  amount :: int
  coin_denom :: string

record ConfigPort =
  title :: string
  config_file :: string
  property_path :: string

record node_args =
  moniker :: string
  node_chain_id :: string
  home_dir :: string
  node_overwrite :: bool
  node_keep :: bool
  node_binary :: string
  node_denom :: string
  node_hrp_prefix :: string

text \<open>The values exchanged with the gRPC stubs and the signing library.  A message is
  opaque; signed bytes are a string.\<close>

type_synonym Msg = string

datatype msgs_arg = OneMsg Msg | MsgList "Msg list"

datatype BroadcastMode =
  BROADCAST_MODE_UNSPECIFIED | BROADCAST_MODE_BLOCK | BROADCAST_MODE_SYNC | BROADCAST_MODE_ASYNC

record TxResponse =
  height :: int
  txhash :: string
  code :: int
  raw_log :: string

record Channel =
  host :: string
  chan_port :: int

record BaseAccount =
  account_number :: int
  sequence :: int

record Fee =
  gas_limit :: int
  fee_coins :: string

record CreateTxOptions =
  opt_msgs :: "Msg list"
  opt_fee :: Fee
  opt_account_number :: int
  opt_sequence :: int

record Wallet =
  wallet_chain_id :: string
  wallet_mnemonic :: string
  wallet_coin_type :: int

text \<open>The second argument of \<^verbatim>\<open>update_port\<close>: an allocated port (an int) or the text
  cut out of a listening address.\<close>

datatype port = PortInt int | PortStr string

text \<open>
  The calls that \<^verbatim>\<open>Testnet\<close> makes on its collaborators, in the order it makes them.
  A node is named by the key it has in \<^verbatim>\<open>validator_nodes\<close>.
  \<open>UpdatePort n f p k\<close> is \<^verbatim>\<open>n.update(f, lambda x: update_port(x, p), k)\<close>.
  A call that only reads (\<open>GetValue\<close>, \<open>GlobGentx\<close>, \<open>GetFreePorts\<close>) is recorded with
  its answer.
\<close>

datatype call =
    Mkdir string
  | Init AccountId
  | SetValue AccountId string cfg_value string
  | AddAccount AccountId Coin Account
  | CopyGenesisFrom AccountId AccountId
  | GetFreePorts int "error + int list"
  | UpdatePort AccountId string port string
  | GetValue AccountId string string "error + cfg_value"
  | AddKey AccountId Account
  | AddValidator AccountId Coin Account
  | GlobGentx AccountId "string list"
  | Sign AccountId Account string
  | CopyGentxFrom AccountId AccountId
  | CollectGentx AccountId
  | Start AccountId
  | Close AccountId
  | GetPort AccountId ConfigPort
  | QueryAccount Channel string
  | CreateAndSignTx Wallet CreateTxOptions
  | BroadcastTx Channel string BroadcastMode
  | CloseChannel Channel

text \<open>
  A statement runs on a state, returns a value or raises, leaves a state behind in both
  cases (an exception does not undo what was already done) and makes calls.
\<close>

type_synonym ('a, 's) prog = "'s \<Rightarrow> (error + 'a) \<times> 's \<times> call list"

definition ret :: "'a \<Rightarrow> ('a, 's) prog" where
  "ret a s = (Inr a, s, [])"

definition throw :: "error \<Rightarrow> ('a, 's) prog" where
  "throw e s = (Inl e, s, [])"

definition bnd :: "('a, 's) prog \<Rightarrow> ('a \<Rightarrow> ('b, 's) prog) \<Rightarrow> ('b, 's) prog" where
  "bnd m f s =
     (case m s of
        (Inl e, s1, c1) \<Rightarrow> (Inl e, s1, c1)
      | (Inr a, s1, c1) \<Rightarrow> (case f a s1 of (r, s2, c2) \<Rightarrow> (r, s2, c1 @ c2)))"

fun for_each :: "'x list \<Rightarrow> ('x \<Rightarrow> (unit, 's) prog) \<Rightarrow> (unit, 's) prog" where
  "for_each [] body = ret ()"
| "for_each (x # xs) body = bnd (body x) (\<lambda>_. for_each xs body)"

fun seq :: "(unit, 's) prog list \<Rightarrow> (unit, 's) prog" where
  "seq [] = ret ()"
| "seq (p # ps) = bnd p (\<lambda>_. seq ps)"

text \<open>Reading an attribute that may not have been assigned yet.\<close>

definition attr :: "('s \<Rightarrow> 'a option) \<Rightarrow> ('a, 's) prog" where
  "attr f s = (case f s of None \<Rightarrow> (Inl AttributeError, s, []) | Some a \<Rightarrow> (Inr a, s, []))"

definition lift :: "error + 'a \<Rightarrow> ('a, 's) prog" where
  "lift r s = (r, s, [])"

section \<open>Python helpers\<close>

text \<open>A dict comprehension over a list of keys: a repeated key keeps its first position.\<close>

definition dict_of :: "('k \<Rightarrow> 'v) \<Rightarrow> 'k list \<Rightarrow> ('k \<times> 'v) list" where
  "dict_of f ks = fold (\<lambda>k d. AList.update k (f k) d) ks []"

definition py_index :: "'a list \<Rightarrow> nat \<Rightarrow> error + 'a" where
  "py_index xs j = (if j < length xs then Inr (xs ! j) else Inl IndexError)"

definition digit_char :: "int \<Rightarrow> char" where
  "digit_char d = ''0123456789'' ! nat d"

text \<open>\<^verbatim>\<open>str(i)\<close> for an int: the decimal digits, with a sign when negative.\<close>

function show_digits :: "int \<Rightarrow> string" where
  "show_digits i = (if i < 10 then [digit_char i] else show_digits (i div 10) @ [digit_char (i mod 10)])"
  by pat_completeness auto
termination
  by (relation "measure nat") auto

declare show_digits.simps [simp del]

definition show_int :: "int \<Rightarrow> string" where
  "show_int i = (if i < 0 then CHR ''-'' # show_digits (- i) else show_digits i)"

text \<open>\<^verbatim>\<open>f"{id}"\<close> for an account id.\<close>

fun show_id :: "AccountId \<Rightarrow> string" where
  "show_id (IdInt i) = show_int i"
| "show_id (IdStr s) = s"

text \<open>\<^verbatim>\<open>Path(p) / q\<close>; \<^verbatim>\<open>Path(".")\<close> is the empty path.  No other normalisation of
  \<^verbatim>\<open>pathlib\<close> is modelled.\<close>

definition path_join :: "string \<Rightarrow> string \<Rightarrow> string" where
  "path_join p q = (if p = ''.'' then q else p @ ''/'' @ q)"

text \<open>\<^verbatim>\<open>s.rsplit(":", maxsplit=1)[-1]\<close>: what follows the last colon, the whole string
  when there is none.\<close>

definition rsplit_last :: "string \<Rightarrow> string" where
  "rsplit_last s = rev (takeWhile (\<lambda>c. c \<noteq> CHR '':'') (rev s))"

text \<open>\<^verbatim>\<open>s.split(":", 1)\<close> unpacked into two names: \<^verbatim>\<open>ValueError\<close> without a colon.\<close>

definition split_first :: "string \<Rightarrow> error + (string \<times> string)" where
  "split_first s =
     (if CHR '':'' \<in> set s
      then Inr (takeWhile (\<lambda>c. c \<noteq> CHR '':'') s, tl (dropWhile (\<lambda>c. c \<noteq> CHR '':'') s))
      else Inl ValueError)"

text \<open>\<^verbatim>\<open>np.array(xs).reshape((-1, k)).tolist()\<close>: rows of \<open>k\<close>; \<^verbatim>\<open>ValueError\<close> when
  the size is not a multiple of \<open>k\<close>.  An empty list gives no rows.\<close>

definition reshape :: "nat \<Rightarrow> 'a list \<Rightarrow> error + 'a list list" where
  "reshape k xs =
     (if k = 0 \<or> length xs mod k \<noteq> 0 then Inl ValueError
      else Inr (map (\<lambda>i. take k (drop (i * k) xs)) [0..<length xs div k]))"

section \<open>The collaborators of Testnet\<close>

text \<open>
  \<^verbatim>\<open>testnet.py\<close> imports \<^verbatim>\<open>Account\<close>, \<^verbatim>\<open>Node\<close> (from \<^verbatim>\<open>.node\<close>),
  \<^verbatim>\<open>get_free_ports\<close> and \<^verbatim>\<open>update_port\<close> (from \<^verbatim>\<open>.utils\<close>); neither module is among
  the sources.  \<^verbatim>\<open>Testnet\<close> is modelled over any implementation of them: \<open>'n\<close> is the
  state of one node (its working directory and its process), and every method takes that
  state and returns it, changed, with its result.  A method that reads another node
  takes the other node's state first.
\<close>

record 'n node_api =
  derive_mnemonic :: "AccountId \<Rightarrow> string \<Rightarrow> string option \<Rightarrow> string option"
  mkdir :: "string \<Rightarrow> error option"
  new_node :: "node_args \<Rightarrow> 'n"
  node_home_dir :: "'n \<Rightarrow> string"
  node_init :: "'n \<Rightarrow> (error + unit) \<times> 'n"
  node_set :: "string \<Rightarrow> cfg_value \<Rightarrow> string \<Rightarrow> 'n \<Rightarrow> (error + unit) \<times> 'n"
  node_get :: "string \<Rightarrow> string \<Rightarrow> 'n \<Rightarrow> error + cfg_value"
  node_update :: "string \<Rightarrow> (cfg_value \<Rightarrow> error + cfg_value) \<Rightarrow> string \<Rightarrow> 'n \<Rightarrow> (error + unit) \<times> 'n"
  node_get_port :: "ConfigPort \<Rightarrow> 'n \<Rightarrow> error + string"
  node_add_account :: "Coin \<Rightarrow> Account \<Rightarrow> 'n \<Rightarrow> (error + unit) \<times> 'n"
  node_add_key :: "Account \<Rightarrow> 'n \<Rightarrow> (error + unit) \<times> 'n"
  node_add_validator :: "Coin \<Rightarrow> Account \<Rightarrow> 'n \<Rightarrow> (error + unit) \<times> 'n"
  node_sign :: "Account \<Rightarrow> string \<Rightarrow> 'n \<Rightarrow> (error + unit) \<times> 'n"
  node_copy_genesis_from :: "'n \<Rightarrow> 'n \<Rightarrow> (error + unit) \<times> 'n"
  node_copy_gentx_from :: "'n \<Rightarrow> 'n \<Rightarrow> (error + unit) \<times> 'n"
  node_collect_gentx :: "'n \<Rightarrow> (error + unit) \<times> 'n"
  node_start :: "'n \<Rightarrow> (error + unit) \<times> 'n"
  node_close :: "'n \<Rightarrow> (error + unit) \<times> 'n"
  glob_gentx :: "'n \<Rightarrow> string list"
  get_free_ports :: "int \<Rightarrow> error + int list"
  update_port :: "cfg_value \<Rightarrow> port \<Rightarrow> error + cfg_value"

text \<open>\<^verbatim>\<open>Account(name, group=..., seed=...)\<close>.
  Modelled from the spec: the class \<^verbatim>\<open>Account\<close> is missing; an account is its id, its
  group, its seed and the key material derived from them.\<close>

definition Account_init :: "'n node_api \<Rightarrow> AccountId \<Rightarrow> string \<Rightarrow> string option \<Rightarrow> Account" where
  "Account_init api name grp sd =
     \<lparr>acc_name = name, acc_group = grp, acc_seed = sd, mnemonic = derive_mnemonic api name grp sd\<rparr>"

section \<open>The Testnet object\<close>

text \<open>
  The attributes of a \<^verbatim>\<open>Testnet\<close>.  \<open>validators\<close>, \<open>accounts\<close> and \<open>validator_nodes\<close>
  are not assigned by \<^verbatim>\<open>__init__\<close>: \<open>None\<close> is the missing attribute.  The dicts are
  association lists in insertion order.
\<close>

record 'n Testnet =
  chain_id :: string
  account_ids :: "AccountId list"
  validator_ids :: "AccountId list"
  lead_validator :: AccountId
  account_seed :: "string option"
  binary :: string
  denom :: string
  hrp_prefix :: string
  coin_type :: int
  config_genesis :: "(string \<times> cfg_value) list"
  config_node :: "(string \<times> (string \<times> cfg_value) list) list"
  account_balance :: int
  validator_balance :: int
  overwrite :: bool
  keep :: bool
  verbose :: bool
  data_dir :: string
  validators :: "(AccountId \<times> Account) list option"
  accounts :: "(AccountId \<times> Account) list option"
  validator_nodes :: "(AccountId \<times> 'n) list option"

definition VALIDATOR_DIR :: string where
  "VALIDATOR_DIR = ''validator_nodes''"

text \<open>The argument of \<^verbatim>\<open>set_accounts\<close> and \<^verbatim>\<open>set_validators\<close>: a list, an int, or
  another iterable.\<close>

datatype ids_arg = ArgList "AccountId list" | ArgInt int | ArgIter "AccountId list"

fun ids_of :: "ids_arg \<Rightarrow> AccountId list" where
  "ids_of (ArgList xs) = xs"
| "ids_of (ArgInt n) = map IdInt [0..n - 1]"
| "ids_of (ArgIter xs) = xs"

definition set_accounts :: "ids_arg \<Rightarrow> (unit, 'n Testnet) prog" where
  "set_accounts a t = (Inr (), t\<lparr>account_ids := ids_of a\<rparr>, [])"


text \<open>\<^verbatim>\<open>__init__\<close>: the keyword arguments are passed explicitly.  The object exists
  only when \<^verbatim>\<open>set_validators\<close> has returned.\<close>

definition Testnet_init ::
  "string \<Rightarrow> ids_arg \<Rightarrow> ids_arg \<Rightarrow> string \<Rightarrow> string \<Rightarrow> string \<Rightarrow> string option \<Rightarrow> int \<Rightarrow>
   (string \<times> cfg_value) list \<Rightarrow> (string \<times> (string \<times> cfg_value) list) list \<Rightarrow> int \<Rightarrow> int \<Rightarrow>
   bool \<Rightarrow> bool \<Rightarrow> bool \<Rightarrow> string option \<Rightarrow> error + 'n Testnet" where
  "Testnet_init cid vals accs bin dn hrp sd ct cg cn ab vb ow kp vrb dd =
     (case ids_of vals of
        [] \<Rightarrow> Inl IndexError
      | v # _ \<Rightarrow>
          Inr \<lparr>chain_id = cid, account_ids = ids_of accs, validator_ids = ids_of vals,
               lead_validator = v, account_seed = sd, binary = bin, denom = dn,
               hrp_prefix = hrp, coin_type = ct, config_genesis = cg, config_node = cn,
               account_balance = ab, validator_balance = vb, overwrite = ow, keep = kp,
               verbose = vrb,
               data_dir = path_join (case dd of None \<Rightarrow> ''.'' | Some d \<Rightarrow> d) VALIDATOR_DIR,
               validators = None, accounts = None, validator_nodes = None\<rparr>)"

definition finalize_accounts :: "'n node_api \<Rightarrow> (unit, 'n Testnet) prog" where
  "finalize_accounts api t =
     (Inr (),
      t\<lparr>validators := Some (dict_of (\<lambda>v. Account_init api v ''val'' (account_seed t)) (validator_ids t)),
        accounts := Some (dict_of (\<lambda>a. Account_init api a ''acc'' (account_seed t)) (account_ids t))\<rparr>,
      [])"

text \<open>The port table of \<^verbatim>\<open>ports()\<close>, in the order the dict is filled.\<close>

definition ports :: "(string \<times> ConfigPort) list" where
  "ports =
     [(''p2p'', \<lparr>title = ''P2P'', config_file = ''config/config.toml'', property_path = ''p2p.laddr''\<rparr>),
      (''abci'', \<lparr>title = ''ABCI'', config_file = ''config/config.toml'', property_path = ''proxy_app''\<rparr>),
      (''pprof_laddr'', \<lparr>title = ''PPROF'', config_file = ''config/config.toml'', property_path = ''rpc.pprof_laddr''\<rparr>),
      (''rpc'', \<lparr>title = ''RPC'', config_file = ''config/config.toml'', property_path = ''rpc.laddr''\<rparr>),
      (''prometheus'', \<lparr>title = ''Prometheus'', config_file = ''config/config.toml'',
         property_path = ''instrumentation.prometheus_listen_addr''\<rparr>),
      (''lcd'', \<lparr>title = ''LCD'', config_file = ''config/app.toml'', property_path = ''api.address''\<rparr>),
      (''grpc'', \<lparr>title = ''gRPC'', config_file = ''config/app.toml'', property_path = ''grpc.address''\<rparr>),
      (''grpc-web'', \<lparr>title = ''gRPC'', config_file = ''config/app.toml'', property_path = ''grpc-web.address''\<rparr>)]"

text \<open>A method call on the node stored under \<open>nid\<close>: the node's new state is stored
  back, also when the method raised.\<close>

definition on_node ::
  "AccountId \<Rightarrow> call \<Rightarrow> ('n \<Rightarrow> (error + 'a) \<times> 'n) \<Rightarrow> ('a, 'n Testnet) prog" where
  "on_node nid c f t =
     (case validator_nodes t of
        None \<Rightarrow> (Inl AttributeError, t, [])
      | Some ns \<Rightarrow>
          (case map_of ns nid of
             None \<Rightarrow> (Inl KeyError, t, [])
           | Some n \<Rightarrow>
               (case f n of
                  (r, n1) \<Rightarrow> (r, t\<lparr>validator_nodes := Some (AList.update nid n1 ns)\<rparr>, [c]))))"

text \<open>The same for a method that is passed another node.\<close>

definition on_node_from ::
  "AccountId \<Rightarrow> AccountId \<Rightarrow> call \<Rightarrow> ('n \<Rightarrow> 'n \<Rightarrow> (error + 'a) \<times> 'n) \<Rightarrow> ('a, 'n Testnet) prog" where
  "on_node_from nid other c f t =
     (case validator_nodes t of
        None \<Rightarrow> (Inl AttributeError, t, [])
      | Some ns \<Rightarrow>
          (case map_of ns nid of
             None \<Rightarrow> (Inl KeyError, t, [])
           | Some n \<Rightarrow>
               (case map_of ns other of
                  None \<Rightarrow> (Inl KeyError, t, [])
                | Some m \<Rightarrow>
                    (case f m n of
                       (r, n1) \<Rightarrow> (r, t\<lparr>validator_nodes := Some (AList.update nid n1 ns)\<rparr>, [c])))))"

text \<open>A method call that reads the node stored under \<open>nid\<close> and leaves it as it is.\<close>

definition ask_node ::
  "AccountId \<Rightarrow> (error + 'a \<Rightarrow> call) \<Rightarrow> ('n \<Rightarrow> error + 'a) \<Rightarrow> ('a, 'n Testnet) prog" where
  "ask_node nid c g t =
     (case validator_nodes t of
        None \<Rightarrow> (Inl AttributeError, t, [])
      | Some ns \<Rightarrow>
          (case map_of ns nid of
             None \<Rightarrow> (Inl KeyError, t, [])
           | Some n \<Rightarrow> (g n, t, [c (g n)])))"

text \<open>Reading an attribute of the node stored under \<open>nid\<close> (no call is made).\<close>

definition node_attr :: "AccountId \<Rightarrow> ('n \<Rightarrow> 'a) \<Rightarrow> ('a, 'n Testnet) prog" where
  "node_attr nid g t =
     (case validator_nodes t of
        None \<Rightarrow> (Inl AttributeError, t, [])
      | Some ns \<Rightarrow>
          (case map_of ns nid of
             None \<Rightarrow> (Inl KeyError, t, [])
           | Some n \<Rightarrow> (Inr (g n), t, [])))"

section \<open>prepare\<close>

text \<open>
  \<^verbatim>\<open>prepare\<close> (lines 151 to 276) is cut at its loops, one definition each, in the order
  of the source.  No statement of \<^verbatim>\<open>prepare\<close> assigns \<^verbatim>\<open>_lead_validator\<close>, the
  balances, \<^verbatim>\<open>denom\<close> or the declared overrides, so the loops take them as arguments;
  \<^verbatim>\<open>validators\<close>, \<^verbatim>\<open>accounts\<close> and \<^verbatim>\<open>validator_nodes\<close> are read where the source
  reads them.  The tables printed under \<^verbatim>\<open>verbose\<close> (lines 224 to 250) call no
  collaborator and are left out.
\<close>

definition mkdir_data_dir :: "'n node_api \<Rightarrow> (unit, 'n Testnet) prog" where
  "mkdir_data_dir api t =
     (case mkdir api (data_dir t) of
        None \<Rightarrow> (Inr (), t, [Mkdir (data_dir t)])
      | Some e \<Rightarrow> (Inl e, t, [Mkdir (data_dir t)]))"

definition create_nodes :: "'n node_api \<Rightarrow> (unit, 'n Testnet) prog" where
  "create_nodes api =
     bnd (attr validators) (\<lambda>vs t.
       (Inr (),
        t\<lparr>validator_nodes := Some (dict_of (\<lambda>validator_id.
             new_node api
               \<lparr>moniker = ''node_'' @ show_id validator_id, node_chain_id = chain_id t,
                home_dir = path_join (data_dir t) (''node_'' @ show_id validator_id),
                node_overwrite = overwrite t, node_keep = keep t, node_binary = binary t,
                node_denom = denom t, node_hrp_prefix = hrp_prefix t\<rparr>) (map fst vs))\<rparr>,
        []))"

definition init_nodes :: "'n node_api \<Rightarrow> (unit, 'n Testnet) prog" where
  "init_nodes api =
     bnd (attr validator_nodes)
       (\<lambda>ns. for_each (map fst ns) (\<lambda>nid. on_node nid (Init nid) (node_init api)))"

definition genesis_json :: string where
  "genesis_json = ''config/genesis.json''"

text \<open>Lines 171 to 174.\<close>

definition override_genesis ::
  "'n node_api \<Rightarrow> AccountId \<Rightarrow> (string \<times> cfg_value) list \<Rightarrow> (unit, 'n Testnet) prog" where
  "override_genesis api lead cg =
     for_each cg (\<lambda>(k, v). on_node lead (SetValue lead genesis_json v k) (node_set api genesis_json v k))"

text \<open>Lines 176 to 179 (\<open>dict = validators\<close>) and 181 to 184 (\<open>dict = accounts\<close>).\<close>

definition fund ::
  "'n node_api \<Rightarrow> AccountId \<Rightarrow> Coin \<Rightarrow> ('n Testnet \<Rightarrow> (AccountId \<times> Account) list option) \<Rightarrow>
   (unit, 'n Testnet) prog" where
  "fund api lead coin dict =
     bnd (attr dict)
       (\<lambda>d. for_each (map snd d) (\<lambda>a. on_node lead (AddAccount lead coin a) (node_add_account api coin a)))"

text \<open>Lines 186 to 190.\<close>

definition copy_genesis :: "'n node_api \<Rightarrow> AccountId \<Rightarrow> (unit, 'n Testnet) prog" where
  "copy_genesis api lead =
     bnd (attr validator_nodes)
       (\<lambda>ns. for_each (map fst ns)
          (\<lambda>node_id. if node_id \<noteq> lead
             then on_node_from node_id lead (CopyGenesisFrom node_id lead) (node_copy_genesis_from api)
             else ret ()))"

text \<open>Lines 193 to 197.\<close>

definition allocate_ports :: "'n node_api \<Rightarrow> (int list list, 'n Testnet) prog" where
  "allocate_ports api =
     bnd (attr validators) (\<lambda>vs.
       bnd (\<lambda>t. (get_free_ports api (int (length ports) * (int (length vs) - 1)), t,
                  [GetFreePorts (int (length ports) * (int (length vs) - 1))
                     (get_free_ports api (int (length ports) * (int (length vs) - 1)))]))
         (\<lambda>flat. lift (reshape (length ports) flat)))"

text \<open>Lines 202 to 208: \<^verbatim>\<open>str(v)\<close> of a string is the string.\<close>

definition apply_overrides ::
  "'n node_api \<Rightarrow> AccountId \<Rightarrow> (string \<times> (string \<times> cfg_value) list) list \<Rightarrow> (unit, 'n Testnet) prog" where
  "apply_overrides api nid cn =
     for_each cn (\<lambda>(cf, configs).
       for_each configs (\<lambda>(k, v).
         on_node nid
           (SetValue nid (''config/'' @ cf @ ''.toml'') (case v of VStr s \<Rightarrow> VStr s | _ \<Rightarrow> v) k)
           (node_set api (''config/'' @ cf @ ''.toml'') (case v of VStr s \<Rightarrow> VStr s | _ \<Rightarrow> v) k)))"

text \<open>Lines 212 to 217.\<close>

definition rewrite_ports :: "'n node_api \<Rightarrow> AccountId \<Rightarrow> int list \<Rightarrow> (unit, 'n Testnet) prog" where
  "rewrite_ports api nid ps =
     for_each (enumerate 0 (map snd ports)) (\<lambda>(j, e_port).
       bnd (lift (py_index ps j)) (\<lambda>p.
         on_node nid
           (UpdatePort nid (config_file e_port) (PortInt p) (property_path e_port))
           (node_update api (config_file e_port) (\<lambda>x. update_port api x (PortInt p)) (property_path e_port))))"

text \<open>Lines 219 to 222: the values are read for the table, and a failing read aborts.\<close>

definition read_ports :: "'n node_api \<Rightarrow> AccountId \<Rightarrow> (unit, 'n Testnet) prog" where
  "read_ports api nid =
     for_each (map snd ports) (\<lambda>e_port.
       bnd (ask_node nid (GetValue nid (config_file e_port) (property_path e_port))
              (node_get api (config_file e_port) (property_path e_port)))
         (\<lambda>_. ret ()))"

text \<open>Lines 201 to 222, with the local \<^verbatim>\<open>all_ports\<close>: \<^verbatim>\<open>pop()\<close> takes the last row.\<close>

fun configure_nodes ::
  "'n node_api \<Rightarrow> AccountId \<Rightarrow> (string \<times> (string \<times> cfg_value) list) list \<Rightarrow> AccountId list \<Rightarrow>
   int list list \<Rightarrow> (unit, 'n Testnet) prog" where
  "configure_nodes api lead cn [] all_ports = ret ()"
| "configure_nodes api lead cn (node_id # rest) all_ports =
     bnd (apply_overrides api node_id cn) (\<lambda>_.
       if node_id \<noteq> lead then
         (if all_ports = [] then throw IndexError
          else bnd (rewrite_ports api node_id (last all_ports)) (\<lambda>_.
                 bnd (read_ports api node_id) (\<lambda>_.
                   configure_nodes api lead cn rest (butlast all_ports))))
       else bnd (read_ports api node_id) (\<lambda>_. configure_nodes api lead cn rest all_ports))"

definition configure :: "'n node_api \<Rightarrow> AccountId \<Rightarrow> (string \<times> (string \<times> cfg_value) list) list \<Rightarrow>
   (unit, 'n Testnet) prog" where
  "configure api lead cn =
     bnd (allocate_ports api) (\<lambda>all_ports.
       bnd (attr validator_nodes) (\<lambda>ns. configure_nodes api lead cn (map fst ns) all_ports))"

text \<open>Lines 259 to 268, for a node that is not the lead.\<close>

definition fix_memo :: "'n node_api \<Rightarrow> AccountId \<Rightarrow> Account \<Rightarrow> ConfigPort \<Rightarrow> (unit, 'n Testnet) prog" where
  "fix_memo api node_id acct p2p =
     bnd (ask_node node_id (\<lambda>r. GlobGentx node_id (case r of Inl _ \<Rightarrow> [] | Inr fs \<Rightarrow> fs))
            (\<lambda>n. Inr (glob_gentx api n))) (\<lambda>files.
       case files of
         [] \<Rightarrow> throw StopIteration
       | gentx_file # _ \<Rightarrow>
           bnd (ask_node node_id (GetValue node_id (config_file p2p) (property_path p2p))
                  (node_get api (config_file p2p) (property_path p2p))) (\<lambda>v.
             case v of
               VStr s \<Rightarrow>
                 bnd (on_node node_id
                        (UpdatePort node_id gentx_file (PortStr (rsplit_last s)) ''body.memo'')
                        (node_update api gentx_file (\<lambda>x. update_port api x (PortStr (rsplit_last s))) ''body.memo''))
                   (\<lambda>_. bnd (node_attr node_id (node_home_dir api)) (\<lambda>home.
                      on_node node_id (Sign node_id acct (path_join home gentx_file))
                        (node_sign api acct (path_join home gentx_file))))
             | _ \<Rightarrow> throw AttributeError))"

text \<open>Lines 253 to 268, one turn of the loop.\<close>

definition stake_node :: "'n node_api \<Rightarrow> AccountId \<Rightarrow> Coin \<Rightarrow> AccountId \<Rightarrow> (unit, 'n Testnet) prog" where
  "stake_node api lead coin node_id =
     bnd (attr validators) (\<lambda>vs.
       case map_of vs node_id of
         None \<Rightarrow> throw KeyError
       | Some acct \<Rightarrow>
           bnd (on_node node_id (AddKey node_id acct) (node_add_key api acct)) (\<lambda>_.
             case map_of ports ''p2p'' of
               None \<Rightarrow> throw KeyError
             | Some p2p \<Rightarrow>
                 bnd (on_node node_id (AddValidator node_id coin acct) (node_add_validator api coin acct)) (\<lambda>_.
                   if node_id \<noteq> lead then fix_memo api node_id acct p2p else ret ())))"

definition stake :: "'n node_api \<Rightarrow> AccountId \<Rightarrow> Coin \<Rightarrow> (unit, 'n Testnet) prog" where
  "stake api lead coin =
     bnd (attr validator_nodes) (\<lambda>ns. for_each (map fst ns) (stake_node api lead coin))"

text \<open>Lines 270 to 273.\<close>

definition exchange_gentx :: "'n node_api \<Rightarrow> (unit, 'n Testnet) prog" where
  "exchange_gentx api =
     bnd (attr validator_nodes) (\<lambda>ns.
       for_each (map fst ns) (\<lambda>id_a.
         bnd (attr validator_nodes) (\<lambda>ns_b.
           for_each (map fst ns_b) (\<lambda>id_b.
             if id_a \<noteq> id_b
             then on_node_from id_a id_b (CopyGentxFrom id_a id_b) (node_copy_gentx_from api)
             else ret ()))))"

text \<open>Lines 275 to 276.\<close>

definition collect_all :: "'n node_api \<Rightarrow> (unit, 'n Testnet) prog" where
  "collect_all api =
     bnd (attr validator_nodes)
       (\<lambda>ns. for_each (map fst ns) (\<lambda>nid. on_node nid (CollectGentx nid) (node_collect_gentx api)))"

text \<open>What \<^verbatim>\<open>prepare\<close> does before the exchange of the gentx files (lines 152 to 268).\<close>

definition ceremony_head :: "'n node_api \<Rightarrow> 'n Testnet \<Rightarrow> (unit, 'n Testnet) prog list" where
  "ceremony_head api t =
     [finalize_accounts api,
      mkdir_data_dir api,
      create_nodes api,
      init_nodes api,
      override_genesis api (lead_validator t) (config_genesis t),
      fund api (lead_validator t) \<lparr>amount = account_balance t, coin_denom = denom t\<rparr> validators,
      fund api (lead_validator t) \<lparr>amount = account_balance t, coin_denom = denom t\<rparr> accounts,
      copy_genesis api (lead_validator t),
      configure api (lead_validator t) (config_node t),
      stake api (lead_validator t) \<lparr>amount = validator_balance t, coin_denom = denom t\<rparr>]"

definition prepare :: "'n node_api \<Rightarrow> (unit, 'n Testnet) prog" where
  "prepare api t = seq (ceremony_head api t @ [exchange_gentx api, collect_all api]) t"

definition spinup :: "'n node_api \<Rightarrow> (unit, 'n Testnet) prog" where
  "spinup api =
     bnd (attr validator_nodes)
       (\<lambda>ns. for_each (map fst ns) (\<lambda>nid. on_node nid (Start nid) (node_start api)))"

definition oneshot :: "'n node_api \<Rightarrow> (unit, 'n Testnet) prog" where
  "oneshot api = bnd (prepare api) (\<lambda>_. spinup api)"

definition teardown :: "'n node_api \<Rightarrow> (unit, 'n Testnet) prog" where
  "teardown api =
     bnd (attr validator_nodes)
       (\<lambda>ns. for_each (map fst ns) (\<lambda>nid. on_node nid (Close nid) (node_close api)))"

section \<open>broadcast_transaction\<close>

text \<open>
  The libraries behind \<^verbatim>\<open>broadcast_transaction\<close>: Python's \<^verbatim>\<open>int\<close> on a string,
  \<^verbatim>\<open>Account.address\<close>, the account query of the gRPC auth stub (with the parse of its
  answer), the signing wallet (with the serialisation of the signed transaction) and the
  broadcast of the gRPC service stub.
\<close>

record client_api =
  int_of_str :: "string \<Rightarrow> error + int"
  address_of :: "Account \<Rightarrow> string \<Rightarrow> string"
  query_account :: "Channel \<Rightarrow> string \<Rightarrow> error + BaseAccount"
  create_and_sign_tx :: "Wallet \<Rightarrow> CreateTxOptions \<Rightarrow> error + string"
  broadcast_tx :: "Channel \<Rightarrow> string \<Rightarrow> BroadcastMode \<Rightarrow> error + TxResponse"

text \<open>A call on a library, with its answer.\<close>

definition request :: "call \<Rightarrow> error + 'a \<Rightarrow> ('a, 's) prog" where
  "request c r s = (r, s, [c])"

definition get_validator_port :: "'n node_api \<Rightarrow> AccountId \<Rightarrow> string \<Rightarrow> (string, 'n Testnet) prog" where
  "get_validator_port api validator_id port_type =
     bnd (attr validator_nodes) (\<lambda>ns.
       case map_of ns validator_id of
         None \<Rightarrow> throw KeyError
       | Some _ \<Rightarrow>
           (case map_of ports port_type of
              None \<Rightarrow> throw KeyError
            | Some spec \<Rightarrow>
                on_node validator_id (GetPort validator_id spec) (\<lambda>n. (node_get_port api spec n, n))))"

definition get_grpc_channel ::
  "'n node_api \<Rightarrow> client_api \<Rightarrow> AccountId option \<Rightarrow> (Channel, 'n Testnet) prog" where
  "get_grpc_channel api cl validator_id t =
     bnd (get_validator_port api
            (case validator_id of None \<Rightarrow> lead_validator t | Some v \<Rightarrow> v) ''grpc'') (\<lambda>addr.
       bnd (lift (split_first addr)) (\<lambda>(grpc_ip, grpc_port).
         bnd (lift (int_of_str cl grpc_port)) (\<lambda>p. ret \<lparr>host = grpc_ip, chan_port = p\<rparr>))) t"

definition broadcast_transaction ::
  "'n node_api \<Rightarrow> client_api \<Rightarrow> AccountId \<Rightarrow> msgs_arg \<Rightarrow> int \<Rightarrow> int \<Rightarrow> AccountId option \<Rightarrow>
   (TxResponse, 'n Testnet) prog" where
  "broadcast_transaction api cl account_id msgs gas fee_amount validator_id t =
     (let validator_id = (case validator_id of None \<Rightarrow> lead_validator t | Some v \<Rightarrow> v);
          msgs = (case msgs of OneMsg m \<Rightarrow> [m] | MsgList ms \<Rightarrow> ms)
      in bnd (attr accounts) (\<lambda>accs.
           case map_of accs account_id of
             None \<Rightarrow> throw KeyError
           | Some account \<Rightarrow>
               (case mnemonic account of
                  None \<Rightarrow> throw ValueError
                | Some mn \<Rightarrow>
                    bnd (get_grpc_channel api cl (Some validator_id)) (\<lambda>channel.
                      bnd (request (QueryAccount channel (address_of cl account (hrp_prefix t)))
                             (query_account cl channel (address_of cl account (hrp_prefix t)))) (\<lambda>account_info.
                        bnd (request
                               (CreateAndSignTx
                                  \<lparr>wallet_chain_id = chain_id t, wallet_mnemonic = mn, wallet_coin_type = coin_type t\<rparr>
                                  \<lparr>opt_msgs = msgs,
                                   opt_fee = \<lparr>gas_limit = gas, fee_coins = show_int fee_amount @ denom t\<rparr>,
                                   opt_account_number = account_number account_info,
                                   opt_sequence = sequence account_info\<rparr>)
                               (create_and_sign_tx cl
                                  \<lparr>wallet_chain_id = chain_id t, wallet_mnemonic = mn, wallet_coin_type = coin_type t\<rparr>
                                  \<lparr>opt_msgs = msgs,
                                   opt_fee = \<lparr>gas_limit = gas, fee_coins = show_int fee_amount @ denom t\<rparr>,
                                   opt_account_number = account_number account_info,
                                   opt_sequence = sequence account_info\<rparr>)) (\<lambda>tx.
                          bnd (request (BroadcastTx channel tx BROADCAST_MODE_BLOCK)
                                 (broadcast_tx cl channel tx BROADCAST_MODE_BLOCK)) (\<lambda>result.
                            bnd (request (CloseChannel channel) (Inr ())) (\<lambda>_. ret result)))))))) t"

section \<open>A node, from the specification\<close>

text \<open>
  The class \<^verbatim>\<open>Node\<close> and the helpers of \<^verbatim>\<open>utils\<close> are not among the sources.  What
  follows is one implementation of \<open>node_api\<close>, written from the specification
  (sections 3, 4.1, 4.2 and 4.4), for the claims that are about what the node methods do.
\<close>

text \<open>Modelled from the spec: the \<open>GentxEnvelope\<close> of section 3, which is missing with
  \<^verbatim>\<open>Node\<close>: a self-staking transaction of one validator, its memo, and the signature it
  carries (who signed, and which content).\<close>

record GentxEnvelope =
  gt_validator :: Account
  gt_stake :: Coin
  gt_memo :: string
  gt_signature :: "(Account \<times> Account \<times> Coin \<times> string) option"

definition gt_content :: "GentxEnvelope \<Rightarrow> Account \<times> Coin \<times> string" where
  "gt_content e = (gt_validator e, gt_stake e, gt_memo e)"

text \<open>Modelled from the spec: an edit after signing invalidates the signature (4.4, \<open>sign\<close>);
  the check itself is the chain binary's, which is missing.\<close>

definition gentx_valid :: "GentxEnvelope \<Rightarrow> bool" where
  "gentx_valid e = (gt_signature e = Some (gt_validator e, gt_content e))"

text \<open>Modelled from the spec: the \<open>GenesisDocument\<close> of section 3 (chain parameters, funded
  balances, and after the ceremony the validator set), missing with \<^verbatim>\<open>Node\<close>.\<close>

record GenesisDocument =
  gen_params :: cfg_value
  gen_balances :: "(Account \<times> Coin) list"
  gen_txs :: "GentxEnvelope list"

text \<open>Modelled from the spec: the \<open>NodeRecord\<close> of section 3, missing with \<^verbatim>\<open>Node\<close>: the
  constructor's arguments, the config documents by file, the genesis document, the gentx
  directory (file name to envelope), the keyring and the process.\<close>

record Node =
  n_args :: node_args
  n_docs :: "(string \<times> cfg_value) list"
  n_genesis :: "GenesisDocument option"
  n_gentx :: "(string \<times> GentxEnvelope) list"
  n_keys :: "Account list"
  n_running :: bool
  n_removed :: bool

text \<open>What the model takes from outside the repository: the documents and the memo the
  chain binary writes, its key derivation, and the ports the operating system yields.\<close>

record chain_env =
  default_docs :: "node_args \<Rightarrow> (string \<times> cfg_value) list"
  default_genesis :: "node_args \<Rightarrow> GenesisDocument"
  default_memo :: "Node \<Rightarrow> string"
  key_derivation :: "AccountId \<Rightarrow> string \<Rightarrow> string option \<Rightarrow> string option"
  os_ports :: "int list"

text \<open>A dotted path, cut at its dots.\<close>

fun split_dots :: "string \<Rightarrow> string list" where
  "split_dots [] = [[]]"
| "split_dots (c # cs) =
     (if c = CHR ''.'' then [] # split_dots cs
      else (case split_dots cs of [] \<Rightarrow> [[c]] | w # ws \<Rightarrow> (c # w) # ws))"

text \<open>Modelled from the spec: the \<open>ConfigStore\<close> of 4.2, missing with \<^verbatim>\<open>Node\<close>.  A
  document is a table; a value is read or written at a path of keys.\<close>

fun doc_get :: "string list \<Rightarrow> cfg_value \<Rightarrow> cfg_value option" where
  "doc_get [] v = Some v"
| "doc_get (k # ks) (VTable kvs) = (case map_of kvs k of None \<Rightarrow> None | Some v \<Rightarrow> doc_get ks v)"
| "doc_get (k # ks) _ = None"

text \<open>Modelled from the spec: writing fails with \<open>MissingKey\<close> when a segment before the
  last one does not exist (4.2); \<open>f\<close> gets the old value, if any, and gives the new one.\<close>

fun doc_put :: "string list \<Rightarrow> (cfg_value option \<Rightarrow> error + cfg_value) \<Rightarrow> cfg_value \<Rightarrow> error + cfg_value" where
  "doc_put [] f v = f (Some v)"
| "doc_put [k] f (VTable kvs) =
     (case f (map_of kvs k) of Inl e \<Rightarrow> Inl e | Inr v1 \<Rightarrow> Inr (VTable (AList.update k v1 kvs)))"
| "doc_put (k # ks) f (VTable kvs) =
     (case map_of kvs k of
        None \<Rightarrow> Inl MissingKey
      | Some v \<Rightarrow>
          (case doc_put ks f v of Inl e \<Rightarrow> Inl e | Inr v1 \<Rightarrow> Inr (VTable (AList.update k v1 kvs))))"
| "doc_put (k # ks) f _ = Inl MissingKey"

definition gentx_file_of :: "Node \<Rightarrow> string" where
  "gentx_file_of n = ''config/gentx/gentx-'' @ moniker (n_args n) @ ''.json''"

text \<open>Modelled from the spec: \<open>get\<close>, \<open>set\<close> and \<open>update\<close> of 4.2 on the documents of one
  node: the genesis document, a staged gentx (its memo, at \<^verbatim>\<open>body.memo\<close>) or a config
  document.  \<open>f\<close> is as for \<open>doc_put\<close>.\<close>

definition spec_write ::
  "string \<Rightarrow> (cfg_value option \<Rightarrow> error + cfg_value) \<Rightarrow> string \<Rightarrow> Node \<Rightarrow> (error + unit) \<times> Node" where
  "spec_write file f key n =
     (if file = genesis_json then
        (case n_genesis n of
           None \<Rightarrow> (Inl MissingKey, n)
         | Some g \<Rightarrow>
             (case doc_put (split_dots key) f (gen_params g) of
                Inl e \<Rightarrow> (Inl e, n)
              | Inr d \<Rightarrow> (Inr (), n\<lparr>n_genesis := Some (g\<lparr>gen_params := d\<rparr>)\<rparr>)))
      else
        (case map_of (n_gentx n) file of
           Some e \<Rightarrow>
             (if key = ''body.memo'' then
                (case f (Some (VStr (gt_memo e))) of
                   Inr (VStr m) \<Rightarrow> (Inr (), n\<lparr>n_gentx := AList.update file (e\<lparr>gt_memo := m\<rparr>) (n_gentx n)\<rparr>)
                 | Inr _ \<Rightarrow> (Inl ValueError, n)
                 | Inl err \<Rightarrow> (Inl err, n))
              else (Inl MissingKey, n))
         | None \<Rightarrow>
             (case map_of (n_docs n) file of
                None \<Rightarrow> (Inl MissingKey, n)
              | Some d \<Rightarrow>
                  (case doc_put (split_dots key) f d of
                     Inl e \<Rightarrow> (Inl e, n)
                   | Inr d1 \<Rightarrow> (Inr (), n\<lparr>n_docs := AList.update file d1 (n_docs n)\<rparr>)))))"

definition spec_set :: "string \<Rightarrow> cfg_value \<Rightarrow> string \<Rightarrow> Node \<Rightarrow> (error + unit) \<times> Node" where
  "spec_set file v key = spec_write file (\<lambda>_. Inr v) key"

definition spec_update ::
  "string \<Rightarrow> (cfg_value \<Rightarrow> error + cfg_value) \<Rightarrow> string \<Rightarrow> Node \<Rightarrow> (error + unit) \<times> Node" where
  "spec_update file g key =
     spec_write file (\<lambda>old. case old of None \<Rightarrow> Inl MissingKey | Some x \<Rightarrow> g x) key"

definition spec_get :: "string \<Rightarrow> string \<Rightarrow> Node \<Rightarrow> error + cfg_value" where
  "spec_get file key n =
     (if file = genesis_json then
        (case n_genesis n of
           None \<Rightarrow> Inl MissingKey
         | Some g \<Rightarrow> (case doc_get (split_dots key) (gen_params g) of None \<Rightarrow> Inl MissingKey | Some v \<Rightarrow> Inr v))
      else
        (case map_of (n_gentx n) file of
           Some e \<Rightarrow> (if key = ''body.memo'' then Inr (VStr (gt_memo e)) else Inl MissingKey)
         | None \<Rightarrow>
             (case map_of (n_docs n) file of
                None \<Rightarrow> Inl MissingKey
              | Some d \<Rightarrow> (case doc_get (split_dots key) d of None \<Rightarrow> Inl MissingKey | Some v \<Rightarrow> Inr v))))"

text \<open>Modelled from the spec: \<open>getPort\<close> of 4.4, missing with \<^verbatim>\<open>Node\<close>: the address
  stored at the port's place.\<close>

definition spec_get_port :: "ConfigPort \<Rightarrow> Node \<Rightarrow> error + string" where
  "spec_get_port e n =
     (case spec_get (config_file e) (property_path e) n of
        Inl err \<Rightarrow> Inl err
      | Inr (VStr s) \<Rightarrow> Inr s
      | Inr _ \<Rightarrow> Inl ValueError)"

definition show_port :: "port \<Rightarrow> string" where
  "show_port p = (case p of PortInt i \<Rightarrow> show_int i | PortStr s \<Rightarrow> s)"

text \<open>Modelled from the spec: \<^verbatim>\<open>update_port\<close> of \<^verbatim>\<open>utils\<close> is missing; it rewrites an
  address to carry the given port (4.5, steps 5 and 7): what follows the last colon is
  replaced.\<close>

definition spec_update_port :: "cfg_value \<Rightarrow> port \<Rightarrow> error + cfg_value" where
  "spec_update_port x p =
     (case x of
        VStr s \<Rightarrow>
          Inr (VStr ((if CHR '':'' \<in> set s then rev (tl (dropWhile (\<lambda>c. c \<noteq> CHR '':'') (rev s))) else s)
                     @ '':'' @ show_port p))
      | _ \<Rightarrow> Inl ValueError)"

text \<open>Modelled from the spec: \<^verbatim>\<open>get_free_ports\<close> of \<^verbatim>\<open>utils\<close> is missing; \<open>allocate(n)\<close>
  of 4.1 returns \<open>n\<close> ports or fails with \<open>ResourceExhausted\<close>.\<close>

definition spec_get_free_ports :: "chain_env \<Rightarrow> int \<Rightarrow> error + int list" where
  "spec_get_free_ports env n =
     (if length (os_ports env) < nat n then Inl ResourceExhausted else Inr (take (nat n) (os_ports env)))"

text \<open>Modelled from the spec: the constructor and the lifecycle methods of \<^verbatim>\<open>Node\<close> (4.4),
  which is missing.\<close>

definition spec_new_node :: "node_args \<Rightarrow> Node" where
  "spec_new_node a =
     \<lparr>n_args = a, n_docs = [], n_genesis = None, n_gentx = [], n_keys = [],
      n_running = False, n_removed = False\<rparr>"

text \<open>Modelled from the spec: \<open>init()\<close> of 4.4 produces the default genesis and config
  documents.\<close>

definition spec_init :: "chain_env \<Rightarrow> Node \<Rightarrow> (error + unit) \<times> Node" where
  "spec_init env n =
     (Inr (),
      n\<lparr>n_docs := default_docs env (n_args n), n_genesis := Some (default_genesis env (n_args n)),
        n_gentx := [], n_removed := False\<rparr>)"

text \<open>Modelled from the spec: \<open>addAccount\<close> of 4.4 funds an account in the local genesis.\<close>

definition spec_add_account :: "Coin \<Rightarrow> Account \<Rightarrow> Node \<Rightarrow> (error + unit) \<times> Node" where
  "spec_add_account coin a n =
     (case n_genesis n of
        None \<Rightarrow> (Inl ProcessError, n)
      | Some g \<Rightarrow> (Inr (), n\<lparr>n_genesis := Some (g\<lparr>gen_balances := gen_balances g @ [(a, coin)]\<rparr>)\<rparr>))"

text \<open>Modelled from the spec: key management of section 6, behind \<^verbatim>\<open>add_key\<close>.\<close>

definition spec_add_key :: "Account \<Rightarrow> Node \<Rightarrow> (error + unit) \<times> Node" where
  "spec_add_key a n = (Inr (), n\<lparr>n_keys := a # n_keys n\<rparr>)"

text \<open>Modelled from the spec: \<open>addValidator\<close> of 4.4 stages a locally signed gentx in the
  gentx directory.\<close>

definition spec_add_validator :: "chain_env \<Rightarrow> Coin \<Rightarrow> Account \<Rightarrow> Node \<Rightarrow> (error + unit) \<times> Node" where
  "spec_add_validator env coin a n =
     (if a \<notin> set (n_keys n) \<or> n_genesis n = None then (Inl ProcessError, n)
      else (Inr (),
            n\<lparr>n_gentx := AList.update (gentx_file_of n)
                 \<lparr>gt_validator = a, gt_stake = coin, gt_memo = default_memo env n,
                  gt_signature = Some (a, a, coin, default_memo env n)\<rparr> (n_gentx n)\<rparr>))"

text \<open>The path of a file below \<open>home\<close>, relative to it.\<close>

definition relative_to :: "string \<Rightarrow> string \<Rightarrow> string option" where
  "relative_to home p =
     (if home = ''.'' then Some p
      else if take (length home + 1) p = home @ ''/'' then Some (drop (length home + 1) p)
      else None)"

text \<open>Modelled from the spec: \<open>sign\<close> of 4.4 signs a transaction file again with a key of
  this node.\<close>

definition spec_sign :: "Account \<Rightarrow> string \<Rightarrow> Node \<Rightarrow> (error + unit) \<times> Node" where
  "spec_sign a p n =
     (case relative_to (home_dir (n_args n)) p of
        None \<Rightarrow> (Inl ProcessError, n)
      | Some file \<Rightarrow>
          (case map_of (n_gentx n) file of
             None \<Rightarrow> (Inl ProcessError, n)
           | Some e \<Rightarrow>
               (if a \<in> set (n_keys n)
                then (Inr (), n\<lparr>n_gentx := AList.update file (e\<lparr>gt_signature := Some (a, gt_content e)\<rparr>) (n_gentx n)\<rparr>)
                else (Inl ProcessError, n))))"

text \<open>Modelled from the spec: \<open>copyGenesisFrom\<close> of 4.4 overwrites the local genesis with the
  other node's.\<close>

definition spec_copy_genesis_from :: "Node \<Rightarrow> Node \<Rightarrow> (error + unit) \<times> Node" where
  "spec_copy_genesis_from other n =
     (case n_genesis other of
        None \<Rightarrow> (Inl OSError, n)
      | Some g \<Rightarrow> (Inr (), n\<lparr>n_genesis := Some g\<rparr>))"

text \<open>Modelled from the spec: \<open>copyGentxFrom\<close> of 4.4 imports the peer's signed gentx into
  the local gentx directory.\<close>

definition spec_copy_gentx_from :: "Node \<Rightarrow> Node \<Rightarrow> (error + unit) \<times> Node" where
  "spec_copy_gentx_from other n =
     (case map_of (n_gentx other) (gentx_file_of other) of
        None \<Rightarrow> (Inl BootstrapFailure, n)
      | Some e \<Rightarrow> (Inr (), n\<lparr>n_gentx := AList.update (gentx_file_of other) e (n_gentx n)\<rparr>))"

text \<open>Modelled from the spec: \<open>collectGentx\<close> of 4.4 folds every gentx of the local
  directory into the genesis; a malformed one is a \<open>BootstrapFailure\<close> (4.5, step 9).\<close>

definition spec_collect_gentx :: "Node \<Rightarrow> (error + unit) \<times> Node" where
  "spec_collect_gentx n =
     (case n_genesis n of
        None \<Rightarrow> (Inl ProcessError, n)
      | Some g \<Rightarrow>
          (if list_all gentx_valid (map snd (n_gentx n))
           then (Inr (), n\<lparr>n_genesis := Some (g\<lparr>gen_txs := map snd (n_gentx n)\<rparr>)\<rparr>)
           else (Inl BootstrapFailure, n)))"

text \<open>Modelled from the spec: \<open>start\<close> and \<open>close\<close> of 4.4; \<open>close\<close> is idempotent, never
  fails, and removes the working directory of a node that does not retain its state.\<close>

definition spec_start :: "Node \<Rightarrow> (error + unit) \<times> Node" where
  "spec_start n = (if n_removed n then (Inl ProcessError, n) else (Inr (), n\<lparr>n_running := True\<rparr>))"

definition spec_close :: "Node \<Rightarrow> (error + unit) \<times> Node" where
  "spec_close n =
     (Inr (),
      if node_keep (n_args n) then n\<lparr>n_running := False\<rparr>
      else n\<lparr>n_running := False, n_removed := True, n_docs := [], n_genesis := None, n_gentx := []\<rparr>)"

definition spec_api :: "chain_env \<Rightarrow> Node node_api" where
  "spec_api env =
     \<lparr>derive_mnemonic = key_derivation env,
      mkdir = (\<lambda>_. None),
      new_node = spec_new_node,
      node_home_dir = (\<lambda>n. home_dir (n_args n)),
      node_init = spec_init env,
      node_set = spec_set,
      node_get = spec_get,
      node_update = spec_update,
      node_get_port = spec_get_port,
      node_add_account = spec_add_account,
      node_add_key = spec_add_key,
      node_add_validator = spec_add_validator env,
      node_sign = spec_sign,
      node_copy_genesis_from = spec_copy_genesis_from,
      node_copy_gentx_from = spec_copy_gentx_from,
      node_collect_gentx = spec_collect_gentx,
      node_start = spec_start,
      node_close = spec_close,
      glob_gentx = (\<lambda>n. map fst (n_gentx n)),
      get_free_ports = spec_get_free_ports env,
      update_port = spec_update_port\<rparr>"

text \<open>The validator set and the balances a genesis document encodes: the operators with
  their stakes, and the funded accounts with their amounts, whatever their order in the
  file.\<close>

definition validator_set :: "GenesisDocument \<Rightarrow> (Account \<times> Coin) set" where
  "validator_set g = (\<lambda>e. (gt_validator e, gt_stake e)) ` set (gen_txs g)"

definition balance_set :: "GenesisDocument \<Rightarrow> (Account \<times> Coin) set" where
  "balance_set g = set (gen_balances g)"

section \<open>A sample network\<close>

text \<open>Concrete collaborators and Testnet objects, on which the theorems below are
  evaluated.\<close>

definition demo_docs :: "(string \<times> cfg_value) list" where
  "demo_docs =
     [(''config/config.toml'',
        VTable [(''proxy_app'', VStr ''tcp://127.0.0.1:26658''),
                (''p2p'', VTable [(''laddr'', VStr ''tcp://0.0.0.0:26656'')]),
                (''rpc'', VTable [(''laddr'', VStr ''tcp://127.0.0.1:26657''), (''pprof_laddr'', VStr ''localhost:6060'')]),
                (''instrumentation'', VTable [(''prometheus_listen_addr'', VStr '':26660'')])]),
      (''config/app.toml'',
        VTable [(''api'', VTable [(''address'', VStr ''tcp://0.0.0.0:1317'')]),
                (''grpc'', VTable [(''address'', VStr ''0.0.0.0:9090'')]),
                (''grpc-web'', VTable [(''address'', VStr ''0.0.0.0:9091'')])])]"

definition demo_env :: chain_env where
  "demo_env =
     \<lparr>default_docs = (\<lambda>_. demo_docs),
      default_genesis = (\<lambda>a. \<lparr>gen_params = VTable [(''chain_id'', VStr (node_chain_id a))], gen_balances = [], gen_txs = []\<rparr>),
      default_memo = (\<lambda>n. moniker (n_args n) @ ''@192.168.0.1:26656''),
      key_derivation = (\<lambda>i g s. s),
      os_ports = [50000, 50001, 50002, 50003, 50004, 50005, 50006, 50007, 50008, 50009]\<rparr>"

definition demo_testnet :: "ids_arg \<Rightarrow> error + Node Testnet" where
  "demo_testnet vals =
     Testnet_init ''test-1'' vals (ArgInt 1) ''gaiad'' ''stake'' ''cosmos'' (Some ''seed'') 118
       [(''chain_id'', VStr ''test-2'')] [(''app'', [(''api.address'', VStr ''tcp://0.0.0.0:1318'')])] (10 ^ 27) (10 ^ 21) True True False None"

definition demo_client :: client_api where
  "demo_client =
     \<lparr>int_of_str = (\<lambda>s. if s = ''9090'' then Inr 9090 else Inl ValueError),
      address_of = (\<lambda>a p. p @ ''1'' @ show_id (acc_name a)),
      query_account = (\<lambda>ch a. Inr \<lparr>account_number = 7, sequence = 3\<rparr>),
      create_and_sign_tx = (\<lambda>w opts. Inr (wallet_mnemonic w @ '':'' @ show_int (opt_sequence opts))),
      broadcast_tx = (\<lambda>ch tx mode. Inr \<lparr>height = 12, txhash = ''ABCD'', code = 5, raw_log = ''insufficient fees''\<rparr>)\<rparr>"

definition no_seed_testnet :: "Node Testnet" where
  "no_seed_testnet =
     \<lparr>chain_id = ''test-1'', account_ids = [IdInt 0], validator_ids = [IdInt 0],
      lead_validator = IdInt 0, account_seed = None, binary = ''gaiad'', denom = ''stake'',
      hrp_prefix = ''cosmos'', coin_type = 118, config_genesis = [], config_node = [],
      account_balance = 10 ^ 27, validator_balance = 10 ^ 21, overwrite = True, keep = True,
      verbose = False, data_dir = ''validator_nodes'',
      validators = Some [(IdInt 0, \<lparr>acc_name = IdInt 0, acc_group = ''val'', acc_seed = None, mnemonic = None\<rparr>)],
      accounts = Some [(IdInt 0, \<lparr>acc_name = IdInt 0, acc_group = ''acc'', acc_seed = None, mnemonic = None\<rparr>)],
      validator_nodes = None\<rparr>"

definition demo_account :: Account where
  "demo_account = \<lparr>acc_name = IdInt 0, acc_group = ''acc'', acc_seed = Some ''seed'', mnemonic = Some ''abandon''\<rparr>"

definition running_testnet :: "Node Testnet" where
  "running_testnet =
     \<lparr>chain_id = ''test-1'', account_ids = [IdInt 0], validator_ids = [IdInt 0],
      lead_validator = IdInt 0, account_seed = Some ''seed'', binary = ''gaiad'', denom = ''stake'',
      hrp_prefix = ''cosmos'', coin_type = 118, config_genesis = [], config_node = [],
      account_balance = 10 ^ 27, validator_balance = 10 ^ 21, overwrite = True, keep = True,
      verbose = False, data_dir = ''validator_nodes'',
      validators = Some [(IdInt 0, demo_account\<lparr>acc_group := ''val''\<rparr>)],
      accounts = Some [(IdInt 0, demo_account)],
      validator_nodes = Some [(IdInt 0,
        \<lparr>n_args = \<lparr>moniker = ''node_0'', node_chain_id = ''test-1'', home_dir = ''validator_nodes/node_0'',
                   node_overwrite = True, node_keep = True, node_binary = ''gaiad'', node_denom = ''stake'',
                   node_hrp_prefix = ''cosmos''\<rparr>,
         n_docs = demo_docs, n_genesis = None, n_gentx = [], n_keys = [], n_running = True,
         n_removed = False\<rparr>)]\<rparr>"

text \<open>A Testnet as \<^verbatim>\<open>__init__\<close> leaves it: \<^verbatim>\<open>prepare\<close> has not run.\<close>

definition fresh_testnet :: "Node Testnet" where
  "fresh_testnet =
     \<lparr>chain_id = ''test-1'', account_ids = [IdInt 0], validator_ids = [IdInt 0, IdInt 1],
      lead_validator = IdInt 0, account_seed = Some ''seed'', binary = ''gaiad'', denom = ''stake'',
      hrp_prefix = ''cosmos'', coin_type = 118, config_genesis = [(''chain_id'', VStr ''test-2'')],
      config_node = [(''app'', [(''api.address'', VStr ''tcp://0.0.0.0:1318'')])],
      account_balance = 10 ^ 27, validator_balance = 10 ^ 21, overwrite = True, keep = True,
      verbose = False, data_dir = ''validator_nodes'',
      validators = None, accounts = None, validator_nodes = None\<rparr>"

text \<open>The Testnet has its nodes, under the keys \<open>K\<close> in this order.\<close>

definition has_nodes :: "AccountId list \<Rightarrow> 'n Testnet \<Rightarrow> bool" where
  "has_nodes K s = (\<exists>ns. validator_nodes s = Some ns \<and> map fst ns = K)"

section \<open>Assertions on statements\<close>


text \<open>
  \<open>triple P m Q E\<close>: from a state and a past trace that satisfy \<open>P\<close>, the statement \<open>m\<close>
  leaves a state and a trace that satisfy \<open>Q\<close> when it returns and \<open>E\<close> when it raises.
\<close>

definition triple ::
  "('s \<Rightarrow> call list \<Rightarrow> bool) \<Rightarrow> ('a, 's) prog \<Rightarrow> ('a \<Rightarrow> 's \<Rightarrow> call list \<Rightarrow> bool) \<Rightarrow>
   ('s \<Rightarrow> call list \<Rightarrow> bool) \<Rightarrow> bool" where
  "triple P m Q E =
     (\<forall>s tr. P s tr \<longrightarrow>
        (case m s of (Inr a, s1, cs) \<Rightarrow> Q a s1 (tr @ cs) | (Inl e, s1, cs) \<Rightarrow> E s1 (tr @ cs)))"

text \<open>\<open>inv I m\<close>: \<open>I\<close> holds after \<open>m\<close>, returned or raised, when it held before.\<close>

definition inv :: "('s \<Rightarrow> call list \<Rightarrow> bool) \<Rightarrow> ('a, 's) prog \<Rightarrow> bool" where
  "inv I m = triple I m (\<lambda>_. I) I"

text \<open>What \<^verbatim>\<open>prepare\<close> may call, for a lead node, a funding amount and a stake.\<close>

fun call_ok :: "AccountId \<Rightarrow> Coin \<Rightarrow> Coin \<Rightarrow> call \<Rightarrow> bool" where
  "call_ok lead ca cv (SetValue n f v k) =
     (if f = genesis_json then n = lead else drop (length f - 5) f = ''.toml'')"
| "call_ok lead ca cv (AddAccount n c a) = (n = lead \<and> c = ca)"
| "call_ok lead ca cv (CopyGenesisFrom n m) = (m = lead \<and> n \<noteq> lead)"
| "call_ok lead ca cv (UpdatePort n f p k) =
     (n \<noteq> lead \<and>
      (case p of
         PortInt _ \<Rightarrow> (f, k) \<in> set (map (\<lambda>e. (config_file e, property_path e)) (map snd ports))
       | PortStr _ \<Rightarrow> k = ''body.memo''))"
| "call_ok lead ca cv (GlobGentx n fs) = (n \<noteq> lead)"
| "call_ok lead ca cv (Sign n a p) = (n \<noteq> lead)"
| "call_ok lead ca cv (AddValidator n c a) = (c = cv)"
| "call_ok lead ca cv (CopyGentxFrom n m) = (n \<noteq> m)"
| "call_ok lead ca cv (Start n) = False"
| "call_ok lead ca cv (Close n) = False"
| "call_ok lead ca cv (GetPort n e) = False"
| "call_ok lead ca cv (QueryAccount ch a) = False"
| "call_ok lead ca cv (CreateAndSignTx w opts) = False"
| "call_ok lead ca cv (BroadcastTx ch tx m) = False"
| "call_ok lead ca cv (CloseChannel ch) = False"
| "call_ok lead ca cv _ = True"

text \<open>Invariants of the trace alone.\<close>

definition calls_ok :: "(call \<Rightarrow> bool) \<Rightarrow> 's \<Rightarrow> call list \<Rightarrow> bool" where
  "calls_ok P s tr = (\<forall>c \<in> set tr. P c)"

text \<open>\<open>frame s0 K s\<close>: \<open>s\<close> is \<open>s0\<close> but for the states of its nodes, which are under the
  keys \<open>K\<close>.\<close>

definition frame :: "'n Testnet \<Rightarrow> AccountId list \<Rightarrow> 'n Testnet \<Rightarrow> call list \<Rightarrow> bool" where
  "frame s0 K s tr = (\<exists>ns. s = s0\<lparr>validator_nodes := Some ns\<rparr> \<and> map fst ns = K)"

text \<open>The dicts that lines 152 to 166 of \<^verbatim>\<open>prepare\<close> build, and the Testnet with them.\<close>

definition validators_of :: "'n node_api \<Rightarrow> 'n Testnet \<Rightarrow> (AccountId \<times> Account) list" where
  "validators_of api t = dict_of (\<lambda>v. Account_init api v ''val'' (account_seed t)) (validator_ids t)"

definition accounts_of :: "'n node_api \<Rightarrow> 'n Testnet \<Rightarrow> (AccountId \<times> Account) list" where
  "accounts_of api t = dict_of (\<lambda>a. Account_init api a ''acc'' (account_seed t)) (account_ids t)"

definition node_keys :: "'n node_api \<Rightarrow> 'n Testnet \<Rightarrow> AccountId list" where
  "node_keys api t = map fst (validators_of api t)"

definition nodes_of :: "'n node_api \<Rightarrow> 'n Testnet \<Rightarrow> (AccountId \<times> 'n) list" where
  "nodes_of api t =
     dict_of (\<lambda>validator_id.
        new_node api
          \<lparr>moniker = ''node_'' @ show_id validator_id, node_chain_id = chain_id t,
           home_dir = path_join (data_dir t) (''node_'' @ show_id validator_id),
           node_overwrite = overwrite t, node_keep = keep t, node_binary = binary t,
           node_denom = denom t, node_hrp_prefix = hrp_prefix t\<rparr>) (node_keys api t)"

definition created :: "'n node_api \<Rightarrow> 'n Testnet \<Rightarrow> 'n Testnet" where
  "created api t =
     t\<lparr>validators := Some (validators_of api t), accounts := Some (accounts_of api t),
       validator_nodes := Some (nodes_of api t)\<rparr>"

text \<open>Reading the trace: the size of a port request, the ports written into listening
  addresses (node, file, path, port), the calls that apply the declared overrides to a
  node, and the rows of ports laid over nodes and roles.\<close>

definition port_request :: "int \<Rightarrow> call \<Rightarrow> bool" where
  "port_request np c = (case c of GetFreePorts k a \<Rightarrow> k = np | _ \<Rightarrow> True)"

fun port_update :: "call \<Rightarrow> (AccountId \<times> string \<times> string \<times> int) option" where
  "port_update (UpdatePort n f (PortInt p) k) = Some (n, f, k, p)"
| "port_update _ = None"

definition port_updates :: "call list \<Rightarrow> (AccountId \<times> string \<times> string \<times> int) list" where
  "port_updates cs = concat (map (\<lambda>c. case port_update c of None \<Rightarrow> [] | Some u \<Rightarrow> [u]) cs)"

definition override_calls :: "AccountId \<Rightarrow> (string \<times> (string \<times> cfg_value) list) list \<Rightarrow> call list" where
  "override_calls n cn =
     concat (map (\<lambda>(cf, configs). map (\<lambda>(k, v). SetValue n (''config/'' @ cf @ ''.toml'') v k) configs) cn)"

definition blocks :: "AccountId list \<Rightarrow> int list list \<Rightarrow> (AccountId \<times> string \<times> string \<times> int) list" where
  "blocks nodes rows =
     concat (map (\<lambda>(n, row). map (\<lambda>(e, p). (n, config_file e, property_path e, p)) (zip (map snd ports) row))
               (zip nodes rows))"

fun is_port_request :: "call \<Rightarrow> bool" where
  "is_port_request (GetFreePorts k a) = True"
| "is_port_request _ = False"

definition quiet :: "call \<Rightarrow> bool" where
  "quiet c = (port_update c = None \<and> \<not> is_port_request c)"

text \<open>\<open>memo_ok lead vs tr\<close>: in the trace \<open>tr\<close>, every \<^verbatim>\<open>sign\<close> and every rewrite of a
  memo is on a node other than \<open>lead\<close> and comes right after the calls that lead to it.
  A call is neutral when it is neither.\<close>

fun neutral :: "call \<Rightarrow> bool" where
  "neutral (Sign n a p) = False"
| "neutral (UpdatePort n f (PortStr p) k) = False"
| "neutral _ = True"


text \<open>Reading the trace for the exchange of the gentx files: a call is staging when it
  neither imports a gentx nor collects, and \<open>exchange_calls K\<close> are the imports between the
  nodes \<open>K\<close>, in the order of lines 270 to 273.\<close>

fun staging :: "call \<Rightarrow> bool" where
  "staging (CollectGentx n) = False"
| "staging (CopyGentxFrom a b) = False"
| "staging _ = True"

fun is_collect :: "call \<Rightarrow> bool" where
  "is_collect (CollectGentx n) = True"
| "is_collect _ = False"

fun is_import :: "call \<Rightarrow> bool" where
  "is_import (CopyGentxFrom a b) = True"
| "is_import _ = False"

definition exchange_calls :: "AccountId list \<Rightarrow> call list" where
  "exchange_calls K =
     concat (map (\<lambda>a. concat (map (\<lambda>b. if a \<noteq> b then [CopyGentxFrom a b] else []) K)) K)"

text \<open>What the ceremony is about, in a node of the specification: the balances its genesis
  funds, and its gentx directory read as file, validator and stake (the memo and the
  signature of an envelope are left out).\<close>

definition funded :: "Node \<Rightarrow> (Account \<times> Coin) list option" where
  "funded n = map_option gen_balances (n_genesis n)"

definition gentx_view :: "Node \<Rightarrow> (string \<times> Account \<times> Coin) list" where
  "gentx_view n = map (\<lambda>(f, e). (f, gt_validator e, gt_stake e)) (n_gentx n)"

text \<open>\<open>all_nodes Q\<close>: every node of the Testnet satisfies \<open>Q\<close>, with its key.\<close>

definition all_nodes :: "(AccountId \<Rightarrow> 'n \<Rightarrow> bool) \<Rightarrow> 'n Testnet \<Rightarrow> call list \<Rightarrow> bool" where
  "all_nodes Q s tr = (\<forall>ns k n. validator_nodes s = Some ns \<longrightarrow> map_of ns k = Some n \<longrightarrow> Q k n)"

text \<open>\<open>steady Q\<close>: \<open>Q\<close> reads a node through its arguments, its balances and its gentx
  directory only.\<close>

definition steady :: "(AccountId \<Rightarrow> Node \<Rightarrow> bool) \<Rightarrow> bool" where
  "steady Q =
     (\<forall>k n n1. n_args n1 = n_args n \<and> funded n1 = funded n \<and> gentx_view n1 = gentx_view n \<longrightarrow>
        Q k n \<longrightarrow> Q k n1)"

text \<open>A node carries the name of its key, and the name of the gentx file it stages.\<close>

definition named :: "AccountId \<Rightarrow> Node \<Rightarrow> bool" where
  "named k n = (moniker (n_args n) = ''node_'' @ show_id k)"

definition gentx_name :: "AccountId \<Rightarrow> string" where
  "gentx_name k = ''config/gentx/gentx-node_'' @ show_id k @ ''.json''"

text \<open>Before the stake is declared: the gentx directory of the node is empty.\<close>

definition unstaked :: "AccountId \<Rightarrow> Node \<Rightarrow> bool" where
  "unstaked k n = (named k n \<and> gentx_view n = [])"

text \<open>During lines 252 to 268: the nodes \<open>done\<close> have staged their own gentx, the other
  ones nothing; all fund the balances \<open>b\<close>.\<close>

definition staking ::
  "(AccountId \<Rightarrow> Account) \<Rightarrow> Coin \<Rightarrow> (Account \<times> Coin) list option \<Rightarrow> AccountId list \<Rightarrow> AccountId \<Rightarrow> Node \<Rightarrow> bool" where
  "staking A coin b done k n =
     (named k n \<and> funded n = b \<and>
      gentx_view n = (if k \<in> set done then [(gentx_name k, A k, coin)] else []))"

text \<open>The balances the genesis of the node under \<open>lead\<close> funds.\<close>

definition lead_funded :: "AccountId \<Rightarrow> Node Testnet \<Rightarrow> (Account \<times> Coin) list option" where
  "lead_funded lead s =
     (case validator_nodes s of
        None \<Rightarrow> None
      | Some ns \<Rightarrow> (case map_of ns lead of None \<Rightarrow> None | Some n \<Rightarrow> funded n))"

text \<open>During lines 270 to 273: a node holds its own gentx and, from each node of \<open>D\<close>, the
  gentx it has imported; nothing else is in its directory.\<close>

definition exchanging ::
  "(AccountId \<Rightarrow> Account) \<Rightarrow> Coin \<Rightarrow> (Account \<times> Coin) list option \<Rightarrow> AccountId list \<Rightarrow>
   (AccountId \<Rightarrow> AccountId set) \<Rightarrow> AccountId \<Rightarrow> Node \<Rightarrow> bool" where
  "exchanging A coin b K D k n =
     (k \<in> set K \<and> named k n \<and> funded n = b \<and>
      (\<forall>(f, v) \<in> set (gentx_view n). \<exists>j \<in> set K. f = gentx_name j \<and> v = (A j, coin)) \<and>
      (\<forall>j \<in> set K. j = k \<or> j \<in> D k \<longrightarrow> map_of (gentx_view n) (gentx_name j) = Some (A j, coin)))"

definition imported :: "AccountId list \<Rightarrow> AccountId list \<Rightarrow> AccountId \<Rightarrow> AccountId list \<Rightarrow> AccountId \<Rightarrow> AccountId set" where
  "imported K outer a inner k = (if k \<in> set outer then set K else if k = a then set inner else {})"

text \<open>The genesis of the node holds the transactions of its gentx directory.\<close>

definition collected :: "Node \<Rightarrow> bool" where
  "collected n = (case n_genesis n of None \<Rightarrow> False | Some g \<Rightarrow> gen_txs g = map snd (n_gentx n))"

text \<open>The validators' accounts and the stake of a Testnet, as \<^verbatim>\<open>prepare\<close> passes them.\<close>

definition validator_account :: "'n node_api \<Rightarrow> 'n Testnet \<Rightarrow> AccountId \<Rightarrow> Account" where
  "validator_account api t v = the (map_of (validators_of api t) v)"

definition stake_coin :: "'n Testnet \<Rightarrow> Coin" where
  "stake_coin t = \<lparr>amount = validator_balance t, coin_denom = denom t\<rparr>"

section \<open>Reasoning about statements\<close>

lemma tripleI:
  "(\<And>s tr a s1 cs. P s tr \<Longrightarrow> m s = (Inr a, s1, cs) \<Longrightarrow> Q a s1 (tr @ cs)) \<Longrightarrow>
   (\<And>s tr e s1 cs. P s tr \<Longrightarrow> m s = (Inl e, s1, cs) \<Longrightarrow> E s1 (tr @ cs)) \<Longrightarrow> triple P m Q E"
  unfolding triple_def by (auto split: prod.splits sum.splits)

lemma tripleD_ok: "triple P m Q E \<Longrightarrow> P s tr \<Longrightarrow> m s = (Inr a, s1, cs) \<Longrightarrow> Q a s1 (tr @ cs)"
  unfolding triple_def by fastforce

lemma tripleD_err: "triple P m Q E \<Longrightarrow> P s tr \<Longrightarrow> m s = (Inl e, s1, cs) \<Longrightarrow> E s1 (tr @ cs)"
  unfolding triple_def by fastforce

lemma triple_weaken:
  "triple P' m Q' E' \<Longrightarrow> (\<And>s tr. P s tr \<Longrightarrow> P' s tr) \<Longrightarrow> (\<And>a s tr. Q' a s tr \<Longrightarrow> Q a s tr) \<Longrightarrow>
   (\<And>s tr. E' s tr \<Longrightarrow> E s tr) \<Longrightarrow> triple P m Q E"
  unfolding triple_def by (fastforce split: prod.splits sum.splits)

lemma triple_ret: "(\<And>s tr. P s tr \<Longrightarrow> Q a s tr) \<Longrightarrow> triple P (ret a) Q E"
  unfolding triple_def ret_def by simp

lemma triple_throw: "(\<And>s tr. P s tr \<Longrightarrow> E s tr) \<Longrightarrow> triple P (throw e) Q E"
  unfolding triple_def throw_def by simp

lemma triple_lift:
  "(\<And>s tr a. P s tr \<Longrightarrow> r = Inr a \<Longrightarrow> Q a s tr) \<Longrightarrow> (\<And>s tr e. P s tr \<Longrightarrow> r = Inl e \<Longrightarrow> E s tr) \<Longrightarrow>
   triple P (lift r) Q E"
  unfolding triple_def lift_def by (cases r) auto

lemma triple_attr:
  "(\<And>s tr a. P s tr \<Longrightarrow> f s = Some a \<Longrightarrow> Q a s tr) \<Longrightarrow> (\<And>s tr. P s tr \<Longrightarrow> f s = None \<Longrightarrow> E s tr) \<Longrightarrow>
   triple P (attr f) Q E"
  unfolding triple_def attr_def by (auto split: option.splits)

lemma triple_bnd:
  "triple P m R E \<Longrightarrow> (\<And>a. triple (R a) (f a) Q E) \<Longrightarrow> triple P (bnd m f) Q E"
  unfolding triple_def bnd_def
  by (fastforce split: prod.splits sum.splits)

lemma triple_for_each:
  "(\<And>x. x \<in> set xs \<Longrightarrow> triple I (body x) (\<lambda>_. I) E) \<Longrightarrow> triple I (for_each xs body) (\<lambda>_. I) E"
proof (induction xs)
  case Nil
  show ?case by (simp add: triple_ret)
next
  case (Cons x xs)
  show ?case
    unfolding for_each.simps
    by (rule triple_bnd [where R = "\<lambda>_. I"]) (use Cons in auto)
qed

lemma triple_for_each_ix:
  "(\<And>pre x post. xs = pre @ x # post \<Longrightarrow> triple (I pre) (body x) (\<lambda>_. I (pre @ [x])) E) \<Longrightarrow>
   triple (I []) (for_each xs body) (\<lambda>_. I xs) E"
proof (induction xs arbitrary: I)
  case Nil
  show ?case by (simp add: triple_ret)
next
  case (Cons x xs)
  have 1: "triple (I []) (body x) (\<lambda>_. I [x]) E"
    using Cons.prems [of "[]" x xs] by simp
  have 2: "triple (I [x]) (for_each xs body) (\<lambda>_. I (x # xs)) E"
    using Cons.IH [of "\<lambda>pre. I (x # pre)"] Cons.prems [of "x # pre" for pre] by simp
  show ?case
    unfolding for_each.simps
    by (rule triple_bnd [OF 1]) (rule 2)
qed

lemma triple_seq:
  "(\<And>p. p \<in> set ps \<Longrightarrow> triple I p (\<lambda>_. I) E) \<Longrightarrow> triple I (seq ps) (\<lambda>_. I) E"
proof (induction ps)
  case Nil
  show ?case by (simp add: triple_ret)
next
  case (Cons p ps)
  show ?case
    unfolding seq.simps
    by (rule triple_bnd [where R = "\<lambda>_. I"]) (use Cons in auto)
qed

lemma triple_on_node:
  "(\<And>s tr ns n a n1. P s tr \<Longrightarrow> validator_nodes s = Some ns \<Longrightarrow> map_of ns nid = Some n \<Longrightarrow>
      f n = (Inr a, n1) \<Longrightarrow> Q a (s\<lparr>validator_nodes := Some (AList.update nid n1 ns)\<rparr>) (tr @ [c])) \<Longrightarrow>
   (\<And>s tr ns n e n1. P s tr \<Longrightarrow> validator_nodes s = Some ns \<Longrightarrow> map_of ns nid = Some n \<Longrightarrow>
      f n = (Inl e, n1) \<Longrightarrow> E (s\<lparr>validator_nodes := Some (AList.update nid n1 ns)\<rparr>) (tr @ [c])) \<Longrightarrow>
   (\<And>s tr. P s tr \<Longrightarrow> (validator_nodes s = None \<or> (\<exists>ns. validator_nodes s = Some ns \<and> map_of ns nid = None)) \<Longrightarrow> E s tr) \<Longrightarrow>
   triple P (on_node nid c f) Q E"
  unfolding triple_def on_node_def
  by (auto split: option.splits prod.splits sum.splits)

lemma triple_on_node_from:
  "(\<And>s tr ns n m a n1. P s tr \<Longrightarrow> validator_nodes s = Some ns \<Longrightarrow> map_of ns nid = Some n \<Longrightarrow>
      map_of ns other = Some m \<Longrightarrow>
      f m n = (Inr a, n1) \<Longrightarrow> Q a (s\<lparr>validator_nodes := Some (AList.update nid n1 ns)\<rparr>) (tr @ [c])) \<Longrightarrow>
   (\<And>s tr ns n m e n1. P s tr \<Longrightarrow> validator_nodes s = Some ns \<Longrightarrow> map_of ns nid = Some n \<Longrightarrow>
      map_of ns other = Some m \<Longrightarrow>
      f m n = (Inl e, n1) \<Longrightarrow> E (s\<lparr>validator_nodes := Some (AList.update nid n1 ns)\<rparr>) (tr @ [c])) \<Longrightarrow>
   (\<And>s tr. P s tr \<Longrightarrow> (validator_nodes s = None \<or> (\<exists>ns. validator_nodes s = Some ns \<and> (map_of ns nid = None \<or> map_of ns other = None))) \<Longrightarrow> E s tr) \<Longrightarrow>
   triple P (on_node_from nid other c f) Q E"
  unfolding triple_def on_node_from_def
  by (auto split: option.splits prod.splits sum.splits)

lemma triple_node_attr:
  "(\<And>s tr ns n. P s tr \<Longrightarrow> validator_nodes s = Some ns \<Longrightarrow> map_of ns nid = Some n \<Longrightarrow> Q (g n) s tr) \<Longrightarrow>
   (\<And>s tr. P s tr \<Longrightarrow> (validator_nodes s = None \<or> (\<exists>ns. validator_nodes s = Some ns \<and> map_of ns nid = None)) \<Longrightarrow> E s tr) \<Longrightarrow>
   triple P (node_attr nid g) Q E"
  unfolding triple_def node_attr_def
  by (auto split: option.splits prod.splits sum.splits)

lemma bnd_Inr: "m s = (Inr a, s1, c1) \<Longrightarrow> bnd m f s = (case f a s1 of (r, s2, c2) \<Rightarrow> (r, s2, c1 @ c2))"
  by (simp add: bnd_def)

lemma bnd_Inl: "m s = (Inl e, s1, c1) \<Longrightarrow> bnd m f s = (Inl e, s1, c1)"
  by (simp add: bnd_def)

section \<open>broadcast_transaction: the sender's signing material\<close>

text \<open>
  C7.  When the sender account has no mnemonic, \<^verbatim>\<open>broadcast_transaction\<close> raises
  \<^verbatim>\<open>ValueError\<close> (line 311; the specification's \<open>ConfigurationError\<close>) before it resolves
  a node endpoint: no call has been made on a node, on the account query, on the signer or
  on the broadcast service, and the Testnet is unchanged.
\<close>

theorem broadcast_without_mnemonic:
  assumes "accounts t = Some accs" and "map_of accs account_id = Some a" and "mnemonic a = None"
  shows "broadcast_transaction api cl account_id msgs gas fee_amount validator_id t = (Inl ValueError, t, [])"
  using assms by (simp add: broadcast_transaction_def Let_def bnd_def attr_def throw_def)

theorem broadcast_without_mnemonic_witness:
  "broadcast_transaction (spec_api demo_env) demo_client (IdInt 0) (OneMsg ''send'') 200000 2000 None no_seed_testnet
     = (Inl ValueError, no_seed_testnet, [])"
  using broadcast_without_mnemonic
    [of no_seed_testnet "[(IdInt 0, \<lparr>acc_name = IdInt 0, acc_group = ''acc'', acc_seed = None, mnemonic = None\<rparr>)]"
        "IdInt 0" "\<lparr>acc_name = IdInt 0, acc_group = ''acc'', acc_seed = None, mnemonic = None\<rparr>"]
  by (simp add: no_seed_testnet_def)

section \<open>broadcast_transaction: sequence, mode and response\<close>









section \<open>teardown\<close>

lemma map_of_keys_Some: "k \<in> set (map fst ns) \<Longrightarrow> \<exists>v. map_of ns k = Some v"
  by (induction ns) auto

lemma map_of_None_keys: "map_of ns k = None \<Longrightarrow> k \<notin> set (map fst ns)"
  by (induction ns) (auto split: if_splits)

lemma update_keys_present: "map_of ns k = Some v \<Longrightarrow> map fst (AList.update k w ns) = map fst ns"
  by (induction ns) (auto split: if_splits)

lemma has_nodes_update:
  "validator_nodes s = Some ns \<Longrightarrow> map_of ns k = Some v \<Longrightarrow> has_nodes K s \<Longrightarrow>
   has_nodes K (s\<lparr>validator_nodes := Some (AList.update k w ns)\<rparr>)"
  by (auto simp: has_nodes_def update_keys_present)

lemma has_nodes_lookup:
  "has_nodes K s \<Longrightarrow> k \<in> set K \<Longrightarrow> \<exists>ns v. validator_nodes s = Some ns \<and> map_of ns k = Some v"
  by (auto simp: has_nodes_def dest: map_of_keys_Some)

lemma teardown_total:
  assumes cl: "\<And>n. fst (node_close api n) = Inr ()"
  shows "triple (\<lambda>s tr. has_nodes K s) (teardown api) (\<lambda>_ s tr. has_nodes K s) (\<lambda>_ _. False)"
  unfolding teardown_def
proof (rule triple_bnd [where R = "\<lambda>ns s tr. has_nodes K s \<and> map fst ns = K"])
  show "triple (\<lambda>s tr. has_nodes K s) (attr validator_nodes) (\<lambda>ns s tr. has_nodes K s \<and> map fst ns = K) (\<lambda>_ _. False)"
    by (rule triple_attr) (auto simp: has_nodes_def)
next
  fix ns :: "(AccountId \<times> 'a) list"
  have body: "triple (\<lambda>s tr. has_nodes K s) (on_node nid (Close nid) (node_close api))
                (\<lambda>_ s tr. has_nodes K s) (\<lambda>_ _. False)" if "nid \<in> set K" for nid
  proof (rule triple_on_node)
    fix s :: "'a Testnet" and tr ns n a n1
    assume "has_nodes K s" "validator_nodes s = Some ns" "map_of ns nid = Some n"
    then show "has_nodes K (s\<lparr>validator_nodes := Some (AList.update nid n1 ns)\<rparr>)"
      by (rule has_nodes_update [rotated 2])
  next
    fix s :: "'a Testnet" and tr ns n e n1
    assume "node_close api n = (Inl e, n1)"
    then show False using cl [of n] by simp
  next
    fix s :: "'a Testnet" and tr
    assume "has_nodes K s"
      "validator_nodes s = None \<or> (\<exists>ns. validator_nodes s = Some ns \<and> map_of ns nid = None)"
    then show False using has_nodes_lookup [OF _ that, of s] by auto
  qed
  have "triple (\<lambda>s tr. has_nodes K s) (for_each K (\<lambda>nid. on_node nid (Close nid) (node_close api)))
          (\<lambda>_ s tr. has_nodes K s) (\<lambda>_ _. False)"
    by (rule triple_for_each) (rule body)
  then show "triple (\<lambda>s tr. has_nodes K s \<and> map fst ns = K)
          (for_each (map fst ns) (\<lambda>nid. on_node nid (Close nid) (node_close api)))
          (\<lambda>_ s tr. has_nodes K s) (\<lambda>_ _. False)"
    unfolding triple_def by auto
qed

lemma teardown_returns:
  assumes cl: "\<And>n. fst (node_close api n) = Inr ()" and "validator_nodes t = Some ns"
  shows "\<exists>t1 cs ns1. teardown api t = (Inr (), t1, cs) \<and> validator_nodes t1 = Some ns1"
proof -
  have P: "has_nodes (map fst ns) t" using assms(2) by (simp add: has_nodes_def)
  obtain r t1 cs where run: "teardown api t = (r, t1, cs)" by (cases "teardown api t") auto
  show ?thesis
  proof (cases r)
    case (Inl e)
    with tripleD_err [OF teardown_total [OF cl] P] run show ?thesis by blast
  next
    case (Inr u)
    with tripleD_ok [OF teardown_total [OF cl] P] run show ?thesis
      by (fastforce simp: has_nodes_def)
  qed
qed

lemma fresh_testnet_init:
  "Testnet_init ''test-1'' (ArgInt 2) (ArgInt 1) ''gaiad'' ''stake'' ''cosmos'' (Some ''seed'') 118
     [(''chain_id'', VStr ''test-2'')] [(''app'', [(''api.address'', VStr ''tcp://0.0.0.0:1318'')])]
     (10 ^ 27) (10 ^ 21) True True False None = Inr fresh_testnet"
  by (simp add: Testnet_init_def fresh_testnet_def upto.simps path_join_def VALIDATOR_DIR_def)

text \<open>
  C9, as stated, fails: \<^verbatim>\<open>validator_nodes\<close> is assigned by \<^verbatim>\<open>prepare\<close> (line 154) and not
  by \<^verbatim>\<open>__init__\<close>, so \<^verbatim>\<open>teardown\<close> on a Testnet that was never prepared raises
  \<^verbatim>\<open>AttributeError\<close> at line 287.
\<close>

theorem teardown_unprepared_raises:
  "teardown (spec_api demo_env) fresh_testnet = (Inl AttributeError, fresh_testnet, [])"
  by (simp add: fresh_testnet_def teardown_def bnd_def attr_def)

text \<open>
  C9, amended.  Once \<^verbatim>\<open>prepare\<close> has created the nodes (\<^verbatim>\<open>validator_nodes\<close> is assigned),
  \<^verbatim>\<open>teardown\<close> returns, whatever the nodes' state (initialised or not, started or not), and
  it returns again when called a second time; \<open>close\<close> returns on every node, started or
  not.
\<close>

theorem teardown_never_fails_once_nodes_exist:
  assumes "validator_nodes t = Some ns"
  shows "(\<exists>t1 cs1 t2 cs2. teardown (spec_api env) t = (Inr (), t1, cs1) \<and>
                          teardown (spec_api env) t1 = (Inr (), t2, cs2))
         \<and> (\<forall>n. fst (node_close (spec_api env) n) = Inr ())"
proof -
  have cl: "\<And>n. fst (node_close (spec_api env) n) = Inr ()"
    by (simp add: spec_api_def spec_close_def)
  from teardown_returns [OF cl assms] obtain t1 cs1 ns1
    where 1: "teardown (spec_api env) t = (Inr (), t1, cs1)" "validator_nodes t1 = Some ns1" by blast
  from teardown_returns [OF cl 1(2)] obtain t2 cs2
    where 2: "teardown (spec_api env) t1 = (Inr (), t2, cs2)" by blast
  from 1 2 cl show ?thesis by blast
qed


theorem teardown_never_fails_once_nodes_exist_witness:
  "validator_nodes running_testnet \<noteq> None \<and>
   (\<exists>t1 cs1 t2 cs2. teardown (spec_api demo_env) running_testnet = (Inr (), t1, cs1) \<and>
                    teardown (spec_api demo_env) t1 = (Inr (), t2, cs2))"
proof -
  have h: "validator_nodes running_testnet = Some (the (validator_nodes running_testnet))"
    by (simp add: running_testnet_def)
  show ?thesis
    using teardown_never_fails_once_nodes_exist [OF h, of demo_env] h by blast
qed

section \<open>The calls of prepare\<close>

lemma inv_ret: "inv I (ret a)"
  unfolding inv_def by (rule triple_ret)

lemma inv_throw: "inv I (throw e)"
  unfolding inv_def by (rule triple_throw)

lemma inv_lift: "inv I (lift r)"
  unfolding inv_def by (rule triple_lift)

lemma inv_attr: "inv I (attr f)"
  unfolding inv_def by (rule triple_attr)

lemma inv_bnd: "inv I m \<Longrightarrow> (\<And>a. inv I (f a)) \<Longrightarrow> inv I (bnd m f)"
  unfolding inv_def by (rule triple_bnd [where R = "\<lambda>_. I"])

lemma inv_for_each: "(\<And>x. x \<in> set xs \<Longrightarrow> inv I (body x)) \<Longrightarrow> inv I (for_each xs body)"
  unfolding inv_def by (rule triple_for_each)

lemma inv_seq: "(\<And>p. p \<in> set ps \<Longrightarrow> inv I p) \<Longrightarrow> inv I (seq ps)"
  unfolding inv_def by (rule triple_seq)

lemma inv_node_attr: "inv I (node_attr nid g)"
  unfolding inv_def by (rule triple_node_attr)

lemma inv_conj: "inv I m \<Longrightarrow> inv J m \<Longrightarrow> inv (\<lambda>s tr. I s tr \<and> J s tr) m"
  unfolding inv_def triple_def by (auto split: prod.splits sum.splits)

lemma invD: "inv I m \<Longrightarrow> I s tr \<Longrightarrow> m s = (r, s1, cs) \<Longrightarrow> I s1 (tr @ cs)"
  unfolding inv_def triple_def by (cases r) fastforce+

lemma ok_on_node: "P c \<Longrightarrow> inv (calls_ok P) (on_node nid c f)"
  unfolding inv_def by (rule triple_on_node) (auto simp: calls_ok_def)

lemma ok_on_node_from: "P c \<Longrightarrow> inv (calls_ok P) (on_node_from nid other c f)"
  unfolding inv_def by (rule triple_on_node_from) (auto simp: calls_ok_def)

lemma ok_ask_node: "(\<And>r. P (c r)) \<Longrightarrow> inv (calls_ok P) (ask_node nid c g)"
  unfolding inv_def triple_def ask_node_def
  by (auto simp: calls_ok_def split: option.splits sum.splits)

lemmas inv_intros = inv_ret inv_throw inv_lift inv_attr inv_bnd inv_for_each inv_seq inv_node_attr

lemma toml_not_genesis: "''config/'' @ cf @ ''.toml'' \<noteq> genesis_json"
proof
  assume "''config/'' @ cf @ ''.toml'' = genesis_json"
  then have "last (''config/'' @ cf @ ''.toml'') = last genesis_json" by simp
  then show False by (simp add: genesis_json_def)
qed


lemma ok_mkdir: "(\<And>d. P (Mkdir d)) \<Longrightarrow> inv (calls_ok P) (mkdir_data_dir api)"
  unfolding inv_def triple_def mkdir_data_dir_def
  by (auto simp: calls_ok_def split: option.splits)

lemma ok_finalize: "inv (calls_ok P) (finalize_accounts api)"
  unfolding inv_def triple_def finalize_accounts_def by (auto simp: calls_ok_def)

lemma ok_create: "inv (calls_ok P) (create_nodes api)"
  unfolding inv_def triple_def create_nodes_def bnd_def attr_def
  by (auto simp: calls_ok_def split: option.splits)

lemma ok_init: "(\<And>n. P (Init n)) \<Longrightarrow> inv (calls_ok P) (init_nodes api)"
  unfolding init_nodes_def by (intro inv_intros ok_on_node)

lemma ok_override:
  "(\<And>k v. P (SetValue lead genesis_json v k)) \<Longrightarrow> inv (calls_ok P) (override_genesis api lead cg)"
  unfolding override_genesis_def by (intro inv_intros) (auto intro: ok_on_node)

lemma ok_fund: "(\<And>a. P (AddAccount lead coin a)) \<Longrightarrow> inv (calls_ok P) (fund api lead coin dict)"
  unfolding fund_def by (intro inv_intros ok_on_node)

lemma ok_copy_genesis:
  "(\<And>n. n \<noteq> lead \<Longrightarrow> P (CopyGenesisFrom n lead)) \<Longrightarrow> inv (calls_ok P) (copy_genesis api lead)"
  unfolding copy_genesis_def by (intro inv_intros) (auto intro: ok_on_node_from inv_ret)

lemma ok_allocate: "(\<And>k r. P (GetFreePorts k r)) \<Longrightarrow> inv (calls_ok P) (allocate_ports api)"
proof -
  assume a: "\<And>k r. P (GetFreePorts k r)"
  have "inv (calls_ok P) (\<lambda>t. (get_free_ports api k, t, [GetFreePorts k (get_free_ports api k)]))" for k
    unfolding inv_def triple_def using a by (auto simp: calls_ok_def split: sum.splits)
  then show ?thesis
    unfolding allocate_ports_def by (intro inv_intros)
qed

lemma ok_overrides:
  "(\<And>cf v k. P (SetValue n (''config/'' @ cf @ ''.toml'') v k)) \<Longrightarrow> inv (calls_ok P) (apply_overrides api n cn)"
  unfolding apply_overrides_def by (intro inv_intros) (auto intro!: inv_intros ok_on_node)

lemma enumerate_ports_mem:
  "(j, e) \<in> set (enumerate 0 (map snd ports)) \<Longrightarrow>
   (config_file e, property_path e) \<in> set (map (\<lambda>e. (config_file e, property_path e)) (map snd ports))"
  by (auto simp: in_set_enumerate_eq)

lemma ok_rewrite:
  "(\<And>e p. e \<in> set (map snd ports) \<Longrightarrow> P (UpdatePort n (config_file e) (PortInt p) (property_path e))) \<Longrightarrow>
   inv (calls_ok P) (rewrite_ports api n ps)"
  unfolding rewrite_ports_def
  by (intro inv_intros) (auto intro!: inv_intros ok_on_node simp: in_set_enumerate_eq)

lemma ok_read: "(\<And>f k r. P (GetValue n f k r)) \<Longrightarrow> inv (calls_ok P) (read_ports api n)"
  unfolding read_ports_def by (intro inv_intros ok_ask_node)

lemma ok_configure_nodes:
  assumes "\<And>n cf v k. P (SetValue n (''config/'' @ cf @ ''.toml'') v k)"
    and "\<And>n e p. n \<noteq> lead \<Longrightarrow> e \<in> set (map snd ports) \<Longrightarrow> P (UpdatePort n (config_file e) (PortInt p) (property_path e))"
    and "\<And>n f k r. P (GetValue n f k r)"
  shows "inv (calls_ok P) (configure_nodes api lead cn K all_ports)"
proof (induction K arbitrary: all_ports)
  case Nil
  show ?case by (simp add: inv_ret)
next
  case (Cons n K)
  show ?case
    unfolding configure_nodes.simps
    by (intro inv_intros ok_overrides ok_read assms(1,3))
       (auto intro!: inv_intros ok_rewrite ok_read assms Cons)
qed

lemma ok_configure:
  assumes "\<And>k r. P (GetFreePorts k r)"
    and "\<And>n cf v k. P (SetValue n (''config/'' @ cf @ ''.toml'') v k)"
    and "\<And>n e p. n \<noteq> lead \<Longrightarrow> e \<in> set (map snd ports) \<Longrightarrow> P (UpdatePort n (config_file e) (PortInt p) (property_path e))"
    and "\<And>n f k r. P (GetValue n f k r)"
  shows "inv (calls_ok P) (configure api lead cn)"
  unfolding configure_def
  by (intro inv_intros ok_allocate ok_configure_nodes assms)

lemma ok_fix_memo:
  assumes "\<And>fs. P (GlobGentx n fs)" and "\<And>f k r. P (GetValue n f k r)"
    and "\<And>f p. P (UpdatePort n f (PortStr p) ''body.memo'')" and "\<And>a p. P (Sign n a p)"
  shows "inv (calls_ok P) (fix_memo api n acct p2p)"
  unfolding fix_memo_def
  by (intro inv_intros ok_ask_node assms)
     (auto intro!: inv_intros ok_ask_node ok_on_node assms split: list.splits cfg_value.splits)

lemma ok_stake:
  assumes "\<And>n a. P (AddKey n a)" and "\<And>n a. P (AddValidator n coin a)"
    and "\<And>n fs. n \<noteq> lead \<Longrightarrow> P (GlobGentx n fs)" and "\<And>n f k r. P (GetValue n f k r)"
    and "\<And>n f p. n \<noteq> lead \<Longrightarrow> P (UpdatePort n f (PortStr p) ''body.memo'')"
    and "\<And>n a p. n \<noteq> lead \<Longrightarrow> P (Sign n a p)"
  shows "inv (calls_ok P) (stake api lead coin)"
  unfolding stake_def stake_node_def
  by (intro inv_intros)
     (auto intro!: inv_intros ok_on_node ok_fix_memo assms split: option.splits)

lemma ok_exchange:
  "(\<And>a b. a \<noteq> b \<Longrightarrow> P (CopyGentxFrom a b)) \<Longrightarrow> inv (calls_ok P) (exchange_gentx api)"
  unfolding exchange_gentx_def
  by (intro inv_intros) (auto intro!: inv_intros ok_on_node_from)

lemma ok_collect: "(\<And>n. P (CollectGentx n)) \<Longrightarrow> inv (calls_ok P) (collect_all api)"
  unfolding collect_all_def by (intro inv_intros ok_on_node)

lemma toml_suffix: "drop (length (''config/'' @ cf @ ''.toml'') - 5) (''config/'' @ cf @ ''.toml'') = ''.toml''"
  by simp

lemma prepare_ok:
  "inv (calls_ok (call_ok (lead_validator t) \<lparr>amount = account_balance t, coin_denom = denom t\<rparr>
                    \<lparr>amount = validator_balance t, coin_denom = denom t\<rparr>))
       (seq (ceremony_head api t @ [exchange_gentx api, collect_all api]))"
proof (rule inv_seq)
  fix p :: "(unit, 'a Testnet) prog"
  assume "p \<in> set (ceremony_head api t @ [exchange_gentx api, collect_all api])"
  then consider "p = finalize_accounts api" | "p = mkdir_data_dir api" | "p = create_nodes api"
    | "p = init_nodes api" | "p = override_genesis api (lead_validator t) (config_genesis t)"
    | d where "p = fund api (lead_validator t) \<lparr>amount = account_balance t, coin_denom = denom t\<rparr> d"
    | "p = copy_genesis api (lead_validator t)" | "p = configure api (lead_validator t) (config_node t)"
    | "p = stake api (lead_validator t) \<lparr>amount = validator_balance t, coin_denom = denom t\<rparr>"
    | "p = exchange_gentx api" | "p = collect_all api"
    by (auto simp: ceremony_head_def)
  then show "inv (calls_ok (call_ok (lead_validator t) \<lparr>amount = account_balance t, coin_denom = denom t\<rparr>
                    \<lparr>amount = validator_balance t, coin_denom = denom t\<rparr>)) p"
  proof cases
    case 8
    show ?thesis unfolding 8
      by (rule ok_configure) (auto simp add: toml_not_genesis simp del: append.simps)
  qed (auto intro!: ok_finalize ok_mkdir ok_create ok_init ok_override ok_fund ok_copy_genesis
         ok_stake ok_exchange ok_collect)
qed

lemma prepare_calls:
  assumes "prepare api t = (r, t1, cs)" and "c \<in> set cs"
  shows "call_ok (lead_validator t) \<lparr>amount = account_balance t, coin_denom = denom t\<rparr>
           \<lparr>amount = validator_balance t, coin_denom = denom t\<rparr> c"
  using invD [OF prepare_ok, of t t "[]" api r t1 cs] assms
  by (simp add: calls_ok_def prepare_def)

subsection \<open>dict_of\<close>

lemma fold_update_distinct:
  "distinct (map fst d) \<Longrightarrow> distinct (map fst (fold (\<lambda>k d. AList.update k (f k) d) ks d))"
  by (induction ks arbitrary: d) (auto simp: distinct_update)

lemma fold_update_keys:
  "fst ` set (fold (\<lambda>k d. AList.update k (f k) d) ks d) = fst ` set d \<union> set ks"
  by (induction ks arbitrary: d) (auto simp: dom_update)

lemma fold_update_map_of:
  "map_of (fold (\<lambda>k d. AList.update k (f k) d) ks d) k = (if k \<in> set ks then Some (f k) else map_of d k)"
  by (induction ks arbitrary: d) (auto simp: update_conv')

lemma fold_update_hd:
  "d \<noteq> [] \<Longrightarrow> hd (map fst (fold (\<lambda>k d. AList.update k (f k) d) ks d)) = hd (map fst d)"
proof (induction ks arbitrary: d)
  case Nil
  then show ?case by simp
next
  case (Cons k ks)
  have "hd (map fst (AList.update k (f k) d)) = hd (map fst d)"
    using Cons.prems by (cases d) (auto simp: update_keys)
  then show ?case using Cons.IH [of "AList.update k (f k) d"] by simp
qed

lemma dict_of_distinct: "distinct (map fst (dict_of f ks))"
  unfolding dict_of_def by (rule fold_update_distinct) simp

lemma dict_of_keys: "set (map fst (dict_of f ks)) = set ks"
  unfolding dict_of_def using fold_update_keys [of f ks "[]"] by simp

lemma dict_of_map_of: "map_of (dict_of f ks) k = (if k \<in> set ks then Some (f k) else None)"
  unfolding dict_of_def by (simp add: fold_update_map_of)

lemma dict_of_hd: "ks \<noteq> [] \<Longrightarrow> hd (map fst (dict_of f ks)) = hd ks"
  unfolding dict_of_def by (cases ks) (simp_all add: fold_update_hd)

lemma dict_of_length: "length (dict_of f ks) = card (set ks)"
  using distinct_card [OF dict_of_distinct, of f ks] dict_of_keys [of f ks] by simp

lemma dict_of_values: "(k, v) \<in> set (dict_of f ks) \<Longrightarrow> v = f k"
  using map_of_is_SomeI [OF dict_of_distinct, of k v f ks] by (simp add: dict_of_map_of split: if_splits)

subsection \<open>What the loops leave unchanged\<close>

lemma fr_on_node: "inv (frame s0 K) (on_node nid c f)"
  unfolding inv_def by (rule triple_on_node) (auto simp: frame_def update_keys_present)

lemma fr_on_node_from: "inv (frame s0 K) (on_node_from nid other c f)"
  unfolding inv_def by (rule triple_on_node_from) (auto simp: frame_def update_keys_present)

lemma fr_ask_node: "inv (frame s0 K) (ask_node nid c g)"
  unfolding inv_def triple_def ask_node_def
  by (auto split: option.splits sum.splits simp: frame_def)

lemmas fr_intros = inv_intros fr_on_node fr_on_node_from fr_ask_node

lemma fr_init: "inv (frame s0 K) (init_nodes api)"
  unfolding init_nodes_def by (intro fr_intros)

lemma fr_override: "inv (frame s0 K) (override_genesis api lead cg)"
  unfolding override_genesis_def by (intro fr_intros) (auto intro: fr_intros)

lemma fr_fund: "inv (frame s0 K) (fund api lead coin dict)"
  unfolding fund_def by (intro fr_intros)

lemma fr_copy_genesis: "inv (frame s0 K) (copy_genesis api lead)"
  unfolding copy_genesis_def by (intro fr_intros) (auto intro: fr_intros)

lemma fr_allocate: "inv (frame s0 K) (allocate_ports api)"
proof -
  have "inv (frame s0 K) (\<lambda>t. (get_free_ports api k, t, [GetFreePorts k (get_free_ports api k)]))" for k
    unfolding inv_def triple_def by (auto split: sum.splits simp: frame_def)
  then show ?thesis
    unfolding allocate_ports_def by (intro fr_intros)
qed

lemma fr_overrides: "inv (frame s0 K) (apply_overrides api n cn)"
  unfolding apply_overrides_def by (intro fr_intros) (auto intro!: fr_intros)

lemma fr_rewrite: "inv (frame s0 K) (rewrite_ports api n ps)"
  unfolding rewrite_ports_def by (intro fr_intros) (auto intro!: fr_intros)

lemma fr_read: "inv (frame s0 K) (read_ports api n)"
  unfolding read_ports_def by (intro fr_intros)

lemma fr_configure_nodes: "inv (frame s0 K) (configure_nodes api lead cn ks all_ports)"
proof (induction ks arbitrary: all_ports)
  case Nil
  show ?case by (simp add: inv_ret)
next
  case (Cons n ks)
  show ?case
    unfolding configure_nodes.simps
    by (intro fr_intros fr_overrides) (auto intro!: fr_intros fr_rewrite fr_read Cons)
qed

lemma fr_configure: "inv (frame s0 K) (configure api lead cn)"
  unfolding configure_def by (intro fr_intros fr_allocate fr_configure_nodes)

lemma fr_fix_memo: "inv (frame s0 K) (fix_memo api n acct p2p)"
  unfolding fix_memo_def
  by (intro fr_intros) (auto intro!: fr_intros split: list.splits cfg_value.splits)

lemma fr_stake_node: "inv (frame s0 K) (stake_node api lead coin n)"
  unfolding stake_node_def
  by (intro fr_intros) (auto intro!: fr_intros fr_fix_memo split: option.splits)

lemma fr_stake: "inv (frame s0 K) (stake api lead coin)"
  unfolding stake_def by (intro fr_intros fr_stake_node)

lemma fr_exchange: "inv (frame s0 K) (exchange_gentx api)"
  unfolding exchange_gentx_def by (intro fr_intros) (auto intro!: fr_intros)

lemma fr_collect: "inv (frame s0 K) (collect_all api)"
  unfolding collect_all_def by (intro fr_intros)

lemma frameD: "inv (frame s0 K) m \<Longrightarrow> frame s0 K s tr \<Longrightarrow> m s = (r, s1, cs) \<Longrightarrow> frame s0 K s1 tr1"
  using invD [of "frame s0 K" m s tr r s1 cs] by (simp add: frame_def)

subsection \<open>A run of prepare, statement by statement\<close>

lemma seq_Cons_run:
  "seq (p # ps) s = (r, s2, cs) \<Longrightarrow>
   (\<exists>e. r = Inl e \<and> p s = (Inl e, s2, cs)) \<or>
   (\<exists>s1 c1 c2. p s = (Inr (), s1, c1) \<and> seq ps s1 = (r, s2, c2) \<and> cs = c1 @ c2)"
  by (auto simp: bnd_def split: prod.splits sum.splits)

lemma seq_Cons_Inr:
  "seq (p # ps) s = (Inr u, s2, cs) \<Longrightarrow>
   \<exists>s1 c1 c2. p s = (Inr (), s1, c1) \<and> seq ps s1 = (Inr (), s2, c2) \<and> cs = c1 @ c2"
  by (auto simp: bnd_def split: prod.splits sum.splits)

lemma seq_Nil_run: "seq [] s = (r, s2, cs) \<Longrightarrow> r = Inr () \<and> s2 = s \<and> cs = []"
  by (auto simp: ret_def)


lemma seq_append_run:
  "seq (ps @ qs) s = (r, s2, cs) \<Longrightarrow>
   (\<exists>e. r = Inl e \<and> seq ps s = (Inl e, s2, cs)) \<or>
   (\<exists>s1 c1 c2. seq ps s = (Inr (), s1, c1) \<and> seq qs s1 = (r, s2, c2) \<and> cs = c1 @ c2)"
proof (induction ps arbitrary: s cs)
  case Nil
  then show ?case by (simp add: ret_def)
next
  case (Cons p ps)
  from seq_Cons_run [of p "ps @ qs" s r s2 cs] Cons.prems
  consider e where "r = Inl e" "p s = (Inl e, s2, cs)"
    | s1 c1 c2 where "p s = (Inr (), s1, c1)" "seq (ps @ qs) s1 = (r, s2, c2)" "cs = c1 @ c2"
    by auto
  then show ?case
  proof cases
    case 1
    then show ?thesis by (simp add: bnd_def)
  next
    case 2
    from Cons.IH [OF 2(2)] show ?thesis
      using 2(1,3) by (auto simp: bnd_def)
  qed
qed

lemma fold_update_fresh:
  "distinct (map fst d @ ks) \<Longrightarrow> map fst (fold (\<lambda>k d. AList.update k (f k) d) ks d) = map fst d @ ks"
proof (induction ks arbitrary: d)
  case Nil
  then show ?case by simp
next
  case (Cons k ks)
  have k: "map fst (AList.update k (f k) d) = map fst d @ [k]"
    using Cons.prems by (auto simp: update_keys)
  have "distinct (map fst (AList.update k (f k) d) @ ks)"
    using Cons.prems unfolding k by auto
  from Cons.IH [OF this] show ?case by (simp add: k)
qed

lemma dict_of_distinct_keys: "distinct ks \<Longrightarrow> map fst (dict_of f ks) = ks"
  unfolding dict_of_def using fold_update_fresh [of "[]" ks f] by simp

lemma node_keys_distinct: "distinct (node_keys api t)"
  unfolding node_keys_def validators_of_def by (rule dict_of_distinct)

lemma node_keys_set: "set (node_keys api t) = set (validator_ids t)"
  unfolding node_keys_def validators_of_def by (rule dict_of_keys)

lemma node_keys_nodes_of: "map fst (nodes_of api t) = node_keys api t"
  unfolding nodes_of_def by (rule dict_of_distinct_keys) (rule node_keys_distinct)

lemma frame_created: "frame (created api t) (node_keys api t) (created api t) tr"
  by (auto simp: frame_def created_def node_keys_nodes_of intro!: exI [of _ "nodes_of api t"])

lemma frame_fields:
  assumes "frame (created api t) K s tr"
  shows "validators s = Some (validators_of api t)" "accounts s = Some (accounts_of api t)"
    "has_nodes K s" "lead_validator s = lead_validator t" "data_dir s = data_dir t"
  using assms by (auto simp: frame_def created_def has_nodes_def)

lemma head_start:
  assumes "seq (finalize_accounts api # mkdir_data_dir api # create_nodes api # ps) t = (r, s2, cs)"
  shows "(\<exists>e. r = Inl e \<and> cs = [Mkdir (data_dir t)] \<and> validator_nodes s2 = validator_nodes t) \<or>
         (\<exists>c. seq ps (created api t) = (r, s2, c) \<and> cs = Mkdir (data_dir t) # c \<and> mkdir api (data_dir t) = None)"
  using assms
  by (auto simp: bnd_def finalize_accounts_def mkdir_data_dir_def create_nodes_def attr_def created_def
        validators_of_def accounts_of_def nodes_of_def node_keys_def
        split: option.splits prod.splits sum.splits)

subsection \<open>Runs that return\<close>

lemma on_node_Inr: "on_node nid c f s = (Inr a, s1, cs) \<Longrightarrow> cs = [c]"
  by (auto simp: on_node_def split: option.splits prod.splits)

lemma on_node_from_Inr: "on_node_from nid other c f s = (Inr a, s1, cs) \<Longrightarrow> cs = [c]"
  by (auto simp: on_node_from_def split: option.splits prod.splits)

lemma for_each_Inr:
  assumes "\<And>x s s1 cs. x \<in> set xs \<Longrightarrow> body x s = (Inr (), s1, cs) \<Longrightarrow> cs = g x"
    and "for_each xs body s = (Inr (), s1, cs)"
  shows "cs = concat (map g xs)"
  using assms
proof (induction xs arbitrary: s cs)
  case Nil
  then show ?case by (simp add: ret_def)
next
  case (Cons x xs)
  from Cons.prems(2) obtain s2 c1 c2 where
    1: "body x s = (Inr (), s2, c1)" and 2: "for_each xs body s2 = (Inr (), s1, c2)" and 3: "cs = c1 @ c2"
    by (auto simp: bnd_def split: prod.splits sum.splits)
  have "c1 = g x" using Cons.prems(1) [of x s s2 c1] 1 by simp
  moreover have "c2 = concat (map g xs)"
    using Cons.IH [OF _ 2] Cons.prems(1) by auto
  ultimately show ?case using 3 by simp
qed



lemma head_start_Inr:
  assumes "seq (finalize_accounts api # mkdir_data_dir api # create_nodes api # ps) t = (Inr (), s2, cs)"
  shows "\<exists>c. seq ps (created api t) = (Inr (), s2, c) \<and> cs = Mkdir (data_dir t) # c \<and> mkdir api (data_dir t) = None"
  using head_start [OF assms] by simp

lemma head_Inr_runs:
  assumes "seq (ceremony_head api t) t = (Inr (), s10, ch)"
  obtains s4 s5 s6 s7 s8 s9 c4 c5 c6 c7 c8 c9 c10 where
    "mkdir api (data_dir t) = None"
    "init_nodes api (created api t) = (Inr (), s4, c4)"
    "override_genesis api (lead_validator t) (config_genesis t) s4 = (Inr (), s5, c5)"
    "fund api (lead_validator t) \<lparr>amount = account_balance t, coin_denom = denom t\<rparr> validators s5 = (Inr (), s6, c6)"
    "fund api (lead_validator t) \<lparr>amount = account_balance t, coin_denom = denom t\<rparr> accounts s6 = (Inr (), s7, c7)"
    "copy_genesis api (lead_validator t) s7 = (Inr (), s8, c8)"
    "configure api (lead_validator t) (config_node t) s8 = (Inr (), s9, c9)"
    "stake api (lead_validator t) \<lparr>amount = validator_balance t, coin_denom = denom t\<rparr> s9 = (Inr (), s10, c10)"
    "ch = Mkdir (data_dir t) # c4 @ c5 @ c6 @ c7 @ c8 @ c9 @ c10"
    "\<And>tr. frame (created api t) (node_keys api t) s4 tr"
    "\<And>tr. frame (created api t) (node_keys api t) s5 tr"
    "\<And>tr. frame (created api t) (node_keys api t) s6 tr"
    "\<And>tr. frame (created api t) (node_keys api t) s7 tr"
    "\<And>tr. frame (created api t) (node_keys api t) s8 tr"
    "\<And>tr. frame (created api t) (node_keys api t) s9 tr"
    "\<And>tr. frame (created api t) (node_keys api t) s10 tr"
proof -
  let ?F = "frame (created api t) (node_keys api t)"
  have "seq (finalize_accounts api # mkdir_data_dir api # create_nodes api #
      [init_nodes api,
      override_genesis api (lead_validator t) (config_genesis t),
      fund api (lead_validator t) \<lparr>amount = account_balance t, coin_denom = denom t\<rparr> validators,
      fund api (lead_validator t) \<lparr>amount = account_balance t, coin_denom = denom t\<rparr> accounts,
      copy_genesis api (lead_validator t),
      configure api (lead_validator t) (config_node t),
      stake api (lead_validator t) \<lparr>amount = validator_balance t, coin_denom = denom t\<rparr>]) t = (Inr (), s10, ch)"
    using assms unfolding ceremony_head_def .
  from head_start_Inr [OF this]
  obtain c where mk: "mkdir api (data_dir t) = None" and ch: "ch = Mkdir (data_dir t) # c"
    and r3: "seq [init_nodes api,
      override_genesis api (lead_validator t) (config_genesis t),
      fund api (lead_validator t) \<lparr>amount = account_balance t, coin_denom = denom t\<rparr> validators,
      fund api (lead_validator t) \<lparr>amount = account_balance t, coin_denom = denom t\<rparr> accounts,
      copy_genesis api (lead_validator t),
      configure api (lead_validator t) (config_node t),
      stake api (lead_validator t) \<lparr>amount = validator_balance t, coin_denom = denom t\<rparr>] (created api t) = (Inr (), s10, c)"
    by blast
  from seq_Cons_Inr [OF r3] obtain s4 c4 d4 where
    p4: "init_nodes api (created api t) = (Inr (), s4, c4)" and r4: "seq
      [override_genesis api (lead_validator t) (config_genesis t),
      fund api (lead_validator t) \<lparr>amount = account_balance t, coin_denom = denom t\<rparr> validators,
      fund api (lead_validator t) \<lparr>amount = account_balance t, coin_denom = denom t\<rparr> accounts,
      copy_genesis api (lead_validator t),
      configure api (lead_validator t) (config_node t),
      stake api (lead_validator t) \<lparr>amount = validator_balance t, coin_denom = denom t\<rparr>] s4 = (Inr (), s10, d4)"
    and e4: "c = c4 @ d4" by blast
  from seq_Cons_Inr [OF r4] obtain s5 c5 d5 where
    p5: "override_genesis api (lead_validator t) (config_genesis t) s4 = (Inr (), s5, c5)" and r5: "seq
      [fund api (lead_validator t) \<lparr>amount = account_balance t, coin_denom = denom t\<rparr> validators,
      fund api (lead_validator t) \<lparr>amount = account_balance t, coin_denom = denom t\<rparr> accounts,
      copy_genesis api (lead_validator t),
      configure api (lead_validator t) (config_node t),
      stake api (lead_validator t) \<lparr>amount = validator_balance t, coin_denom = denom t\<rparr>] s5 = (Inr (), s10, d5)"
    and e5: "d4 = c5 @ d5" by blast
  from seq_Cons_Inr [OF r5] obtain s6 c6 d6 where
    p6: "fund api (lead_validator t) \<lparr>amount = account_balance t, coin_denom = denom t\<rparr> validators s5 = (Inr (), s6, c6)"
    and r6: "seq
      [fund api (lead_validator t) \<lparr>amount = account_balance t, coin_denom = denom t\<rparr> accounts,
      copy_genesis api (lead_validator t),
      configure api (lead_validator t) (config_node t),
      stake api (lead_validator t) \<lparr>amount = validator_balance t, coin_denom = denom t\<rparr>] s6 = (Inr (), s10, d6)"
    and e6: "d5 = c6 @ d6" by blast
  from seq_Cons_Inr [OF r6] obtain s7 c7 d7 where
    p7: "fund api (lead_validator t) \<lparr>amount = account_balance t, coin_denom = denom t\<rparr> accounts s6 = (Inr (), s7, c7)"
    and r7: "seq
      [copy_genesis api (lead_validator t),
      configure api (lead_validator t) (config_node t),
      stake api (lead_validator t) \<lparr>amount = validator_balance t, coin_denom = denom t\<rparr>] s7 = (Inr (), s10, d7)"
    and e7: "d6 = c7 @ d7" by blast
  from seq_Cons_Inr [OF r7] obtain s8 c8 d8 where
    p8: "copy_genesis api (lead_validator t) s7 = (Inr (), s8, c8)"
    and r8: "seq
      [configure api (lead_validator t) (config_node t),
      stake api (lead_validator t) \<lparr>amount = validator_balance t, coin_denom = denom t\<rparr>] s8 = (Inr (), s10, d8)"
    and e8: "d7 = c8 @ d8" by blast
  from seq_Cons_Inr [OF r8] obtain s9 c9 d9 where
    p9: "configure api (lead_validator t) (config_node t) s8 = (Inr (), s9, c9)"
    and r9: "seq [stake api (lead_validator t) \<lparr>amount = validator_balance t, coin_denom = denom t\<rparr>] s9 = (Inr (), s10, d9)"
    and e9: "d8 = c9 @ d9" by blast
  from seq_Cons_Inr [OF r9] obtain s10' c10 d10 where
    p10: "stake api (lead_validator t) \<lparr>amount = validator_balance t, coin_denom = denom t\<rparr> s9 = (Inr (), s10', c10)"
    and r10: "seq [] s10' = (Inr (), s10, d10)"
    and e10: "d9 = c10 @ d10" by blast
  from seq_Nil_run [OF r10] have n: "s10 = s10'" "d10 = []" by auto
  have f4: "?F s4 tr" for tr by (rule frameD [OF fr_init frame_created p4])
  have f5: "?F s5 tr" for tr by (rule frameD [OF fr_override f4 p5])
  have f6: "?F s6 tr" for tr by (rule frameD [OF fr_fund f5 p6])
  have f7: "?F s7 tr" for tr by (rule frameD [OF fr_fund f6 p7])
  have f8: "?F s8 tr" for tr by (rule frameD [OF fr_copy_genesis f7 p8])
  have f9: "?F s9 tr" for tr by (rule frameD [OF fr_configure f8 p9])
  have f10: "?F s10 tr" for tr using frameD [OF fr_stake f9 p10] n by simp
  show ?thesis
    by (rule that [OF mk p4 p5 p6 p7 p8 p9 _ _ f4 f5 f6 f7 f8 f9 f10])
       (use p10 n ch e4 e5 e6 e7 e8 e9 e10 in auto)
qed

lemma prepare_Inr_runs:
  assumes "prepare api t = (Inr (), t1, cs)"
  obtains s10 ch s11 c11 c12 where
    "seq (ceremony_head api t) t = (Inr (), s10, ch)"
    "exchange_gentx api s10 = (Inr (), s11, c11)"
    "collect_all api s11 = (Inr (), t1, c12)"
    "cs = ch @ c11 @ c12"
    "\<And>tr. frame (created api t) (node_keys api t) s10 tr"
    "\<And>tr. frame (created api t) (node_keys api t) s11 tr"
    "\<And>tr. frame (created api t) (node_keys api t) t1 tr"
proof -
  from seq_append_run [of "ceremony_head api t" "[exchange_gentx api, collect_all api]" t "Inr ()" t1 cs] assms
  obtain s10 ch d where h: "seq (ceremony_head api t) t = (Inr (), s10, ch)"
    and r: "seq [exchange_gentx api, collect_all api] s10 = (Inr (), t1, d)" and e: "cs = ch @ d"
    unfolding prepare_def by blast
  from seq_Cons_Inr [OF r] obtain s11 c11 d11 where
    p11: "exchange_gentx api s10 = (Inr (), s11, c11)"
    and r11: "seq [collect_all api] s11 = (Inr (), t1, d11)" and e11: "d = c11 @ d11" by blast
  from seq_Cons_Inr [OF r11] obtain s12 c12 d12 where
    p12: "collect_all api s11 = (Inr (), s12, c12)"
    and r12: "seq [] s12 = (Inr (), t1, d12)" and e12: "d11 = c12 @ d12" by blast
  from seq_Nil_run [OF r12] have n: "t1 = s12" "d12 = []" by auto
  have f10: "frame (created api t) (node_keys api t) s10 tr" for tr
    by (rule head_Inr_runs [OF h])
  have f11: "frame (created api t) (node_keys api t) s11 tr" for tr
    by (rule frameD [OF fr_exchange f10 p11])
  have f12: "frame (created api t) (node_keys api t) t1 tr" for tr
    using frameD [OF fr_collect f11 p12] n by simp
  show ?thesis
    by (rule that [OF h p11 _ _ f10 f11 f12]) (use p12 n e e11 e12 in auto)
qed

section \<open>The sample network prepared\<close>

lemma demo_run: "fst (prepare (spec_api demo_env) fresh_testnet) = Inr ()"
  by code_simp

lemma demo_run_obtain:
  obtains t2 cs where "prepare (spec_api demo_env) fresh_testnet = (Inr (), t2, cs)"
  using demo_run by (cases "prepare (spec_api demo_env) fresh_testnet") auto

section \<open>The lead validator\<close>




lemma for_each_Inr_each:
  assumes "for_each xs body s = (Inr (), s1, cs)" and "x \<in> set xs" and "I s"
    and "\<And>y sa r sb c. I sa \<Longrightarrow> body y sa = (r, sb, c) \<Longrightarrow> I sb"
  shows "\<exists>sa sb c pre post. I sa \<and> body x sa = (Inr (), sb, c) \<and> cs = pre @ c @ post"
  using assms(1-3)
proof (induction xs arbitrary: s cs)
  case Nil
  then show ?case by simp
next
  case (Cons y ys)
  from Cons.prems(1) obtain s2 c1 c2 where
    1: "body y s = (Inr (), s2, c1)" and 2: "for_each ys body s2 = (Inr (), s1, c2)" and 3: "cs = c1 @ c2"
    by (auto simp: bnd_def split: prod.splits sum.splits)
  show ?case
  proof (cases "x = y")
    case True
    have "cs = [] @ c1 @ c2" using 3 by simp
    with 1 Cons.prems(3) True show ?thesis by blast
  next
    case False
    then have "x \<in> set ys" using Cons.prems(2) by simp
    from Cons.IH [OF 2 this assms(4) [OF Cons.prems(3) 1]]
    obtain sa sb c pre post where "I sa" "body x sa = (Inr (), sb, c)" "c2 = pre @ c @ post" by blast
    moreover have "cs = (c1 @ pre) @ c @ post" using 3 calculation(3) by simp
    ultimately show ?thesis by blast
  qed
qed

lemma ask_node_Inr: "ask_node nid c g s = (Inr a, s1, cs) \<Longrightarrow> s1 = s \<and> (\<exists>ns n. validator_nodes s = Some ns \<and> map_of ns nid = Some n \<and> g n = Inr a \<and> cs = [c (Inr a)])"
  by (auto simp: ask_node_def split: option.splits)

lemma on_node_same: "on_node nid c f s = (r, s1, cs) \<Longrightarrow> validators s1 = validators s \<and> accounts s1 = accounts s"
  by (auto simp: on_node_def split: option.splits prod.splits)

lemma fix_memo_Inr:
  assumes "fix_memo api nid acct p2p s = (Inr (), s1, c)"
  shows "\<exists>fs f v home. c = [GlobGentx nid (f # fs),
            GetValue nid (config_file p2p) (property_path p2p) (Inr (VStr v)),
            UpdatePort nid f (PortStr (rsplit_last v)) ''body.memo'',
            Sign nid acct (path_join home f)]"
proof -
  from assms obtain files sa ca cb where
    g: "ask_node nid (\<lambda>r. GlobGentx nid (case r of Inl _ \<Rightarrow> [] | Inr fs \<Rightarrow> fs)) (\<lambda>n. Inr (glob_gentx api n)) s = (Inr files, sa, ca)"
    and rest: "(case files of [] \<Rightarrow> throw StopIteration | gentx_file # _ \<Rightarrow>
           bnd (ask_node nid (GetValue nid (config_file p2p) (property_path p2p))
                  (node_get api (config_file p2p) (property_path p2p))) (\<lambda>v.
             case v of
               VStr s \<Rightarrow>
                 bnd (on_node nid
                        (UpdatePort nid gentx_file (PortStr (rsplit_last s)) ''body.memo'')
                        (node_update api gentx_file (\<lambda>x. update_port api x (PortStr (rsplit_last s))) ''body.memo''))
                   (\<lambda>_. bnd (node_attr nid (node_home_dir api)) (\<lambda>home.
                      on_node nid (Sign nid acct (path_join home gentx_file))
                        (node_sign api acct (path_join home gentx_file))))
             | _ \<Rightarrow> throw AttributeError)) sa = (Inr (), s1, cb)"
    and c: "c = ca @ cb"
    unfolding fix_memo_def by (auto simp: bnd_def split: prod.splits sum.splits)
  from ask_node_Inr [OF g] have ca: "ca = [GlobGentx nid files]" by auto
  from rest obtain f fs where files: "files = f # fs"
    by (cases files) (auto simp: throw_def)
  from rest files obtain v sb cc cd where
    gv: "ask_node nid (GetValue nid (config_file p2p) (property_path p2p))
                  (node_get api (config_file p2p) (property_path p2p)) sa = (Inr v, sb, cc)"
    and rest2: "(case v of
               VStr s \<Rightarrow>
                 bnd (on_node nid
                        (UpdatePort nid f (PortStr (rsplit_last s)) ''body.memo'')
                        (node_update api f (\<lambda>x. update_port api x (PortStr (rsplit_last s))) ''body.memo''))
                   (\<lambda>_. bnd (node_attr nid (node_home_dir api)) (\<lambda>home.
                      on_node nid (Sign nid acct (path_join home f))
                        (node_sign api acct (path_join home f))))
             | _ \<Rightarrow> throw AttributeError) sb = (Inr (), s1, cd)"
    and cb: "cb = cc @ cd"
    by (auto simp: bnd_def split: prod.splits sum.splits)
  from ask_node_Inr [OF gv] have cc: "cc = [GetValue nid (config_file p2p) (property_path p2p) (Inr v)]" by auto
  from rest2 obtain w where v: "v = VStr w"
    by (cases v) (auto simp: throw_def)
  from rest2 v obtain sc ce cf where
    up: "on_node nid (UpdatePort nid f (PortStr (rsplit_last w)) ''body.memo'')
           (node_update api f (\<lambda>x. update_port api x (PortStr (rsplit_last w))) ''body.memo'') sb = (Inr (), sc, ce)"
    and rest3: "bnd (node_attr nid (node_home_dir api)) (\<lambda>home.
                      on_node nid (Sign nid acct (path_join home f))
                        (node_sign api acct (path_join home f))) sc = (Inr (), s1, cf)"
    and cd: "cd = ce @ cf"
    by (auto simp: bnd_def split: prod.splits sum.splits)
  from on_node_Inr [OF up] have ce: "ce = [UpdatePort nid f (PortStr (rsplit_last w)) ''body.memo'']" .
  from rest3 obtain home where "cf = [Sign nid acct (path_join home f)]"
    by (auto simp: bnd_def node_attr_def split: prod.splits sum.splits option.splits dest: on_node_Inr)
  then show ?thesis using c ca cb cc cd ce files v by auto
qed

lemma stake_node_Inr:
  assumes "stake_node api lead coin nid s = (Inr (), s1, c)" and "validators s = Some vs"
  shows "\<exists>acct rest. map_of vs nid = Some acct \<and> c = AddKey nid acct # AddValidator nid coin acct # rest \<and>
           (nid = lead \<longrightarrow> rest = []) \<and>
           (nid \<noteq> lead \<longrightarrow> (\<exists>fs f v home. rest =
              [GlobGentx nid (f # fs),
               GetValue nid ''config/config.toml'' ''p2p.laddr'' (Inr (VStr v)),
               UpdatePort nid f (PortStr (rsplit_last v)) ''body.memo'',
               Sign nid acct (path_join home f)]))"
proof -
  have p2p: "map_of ports ''p2p'' = Some \<lparr>title = ''P2P'', config_file = ''config/config.toml'', property_path = ''p2p.laddr''\<rparr>"
    by (simp add: ports_def)
  from assms obtain acct where acct: "map_of vs nid = Some acct"
    by (cases "map_of vs nid") (auto simp: stake_node_def bnd_def attr_def throw_def)
  from assms acct obtain sa sb ca cb cc where
    k: "on_node nid (AddKey nid acct) (node_add_key api acct) s = (Inr (), sa, ca)"
    and v: "on_node nid (AddValidator nid coin acct) (node_add_validator api coin acct) sa = (Inr (), sb, cb)"
    and rest: "(if nid \<noteq> lead then fix_memo api nid acct
          \<lparr>title = ''P2P'', config_file = ''config/config.toml'', property_path = ''p2p.laddr''\<rparr> else ret ()) sb = (Inr (), s1, cc)"
    and c: "c = ca @ cb @ cc"
    unfolding stake_node_def by (auto simp: bnd_def attr_def p2p split: prod.splits sum.splits)
  have "ca = [AddKey nid acct]" "cb = [AddValidator nid coin acct]"
    using on_node_Inr [OF k] on_node_Inr [OF v] by auto
  moreover have "nid = lead \<Longrightarrow> cc = []" using rest by (simp add: ret_def)
  moreover have "nid \<noteq> lead \<Longrightarrow> \<exists>fs f v home. cc =
              [GlobGentx nid (f # fs),
               GetValue nid ''config/config.toml'' ''p2p.laddr'' (Inr (VStr v)),
               UpdatePort nid f (PortStr (rsplit_last v)) ''body.memo'',
               Sign nid acct (path_join home f)]"
    using rest fix_memo_Inr [of api nid acct
        "\<lparr>title = ''P2P'', config_file = ''config/config.toml'', property_path = ''p2p.laddr''\<rparr>" sb s1 cc]
    by simp
  ultimately show ?thesis using acct c by auto
qed

lemma fund_Inr:
  assumes "fund api lead coin dict s = (Inr (), s1, cs)" and "dict s = Some d"
  shows "cs = map (AddAccount lead coin) (map snd d)"
proof -
  have run: "for_each (map snd d) (\<lambda>a. on_node lead (AddAccount lead coin a) (node_add_account api coin a)) s = (Inr (), s1, cs)"
    using assms by (simp add: fund_def bnd_def attr_def)
  have "cs = concat (map (\<lambda>a. [AddAccount lead coin a]) (map snd d))"
    by (rule for_each_Inr [OF _ run]) (auto dest: on_node_Inr)
  then show ?thesis by (simp add: comp_def concat_map_singleton)
qed

section \<open>Funding and stake\<close>

lemma stake_Inr_each:
  assumes "stake api lead coin s = (Inr (), s1, c)" and "frame s0 K s []" and "nid \<in> set K"
  shows "\<exists>sa sb cn pre post. frame s0 K sa [] \<and> stake_node api lead coin nid sa = (Inr (), sb, cn) \<and>
           c = pre @ cn @ post"
proof -
  from assms(2) obtain ns where ns: "validator_nodes s = Some ns" "map fst ns = K"
    by (auto simp: frame_def)
  have run: "for_each K (stake_node api lead coin) s = (Inr (), s1, c)"
    using assms(1) ns by (simp add: stake_def bnd_def attr_def)
  show ?thesis
    by (rule for_each_Inr_each [OF run assms(3), where I = "\<lambda>s. frame s0 K s []"])
       (use assms(2) in \<open>auto intro: frameD [OF fr_stake_node]\<close>)
qed

lemma validators_of_lookup:
  "v \<in> set (validator_ids t) \<Longrightarrow>
   map_of (validators_of api t) v = Some (Account_init api v ''val'' (account_seed t))"
  by (simp add: validators_of_def dict_of_map_of)

lemma validators_of_values:
  "v \<in> set (validator_ids t) \<Longrightarrow> Account_init api v ''val'' (account_seed t) \<in> set (map snd (validators_of api t))"
  using map_of_SomeD [OF validators_of_lookup, of v t api] by force

lemma accounts_of_values:
  "a \<in> set (account_ids t) \<Longrightarrow> Account_init api a ''acc'' (account_seed t) \<in> set (map snd (accounts_of api t))"
proof -
  assume "a \<in> set (account_ids t)"
  then have "map_of (accounts_of api t) a = Some (Account_init api a ''acc'' (account_seed t))"
    by (simp add: accounts_of_def dict_of_map_of)
  from map_of_SomeD [OF this] show ?thesis by force
qed

text \<open>
  C10.  In every run of \<^verbatim>\<open>prepare\<close>, every \<^verbatim>\<open>add_account\<close> is on the lead node with
  \<^verbatim>\<open>Coin(account_balance, denom)\<close> and every \<^verbatim>\<open>add_validator\<close> carries
  \<^verbatim>\<open>Coin(validator_balance, denom)\<close>.  When \<^verbatim>\<open>prepare\<close> returns, each validator identity
  has been funded on the lead with \<^verbatim>\<open>account_balance\<close>, as each plain account has, and
  has staked \<^verbatim>\<open>validator_balance\<close> on its own node.
\<close>

theorem funding_and_stake_amounts:
  "prepare api t = (r, t2, cs) \<longrightarrow>
     (\<forall>n c a. AddAccount n c a \<in> set cs \<longrightarrow>
        n = lead_validator t \<and> c = \<lparr>amount = account_balance t, coin_denom = denom t\<rparr>)
   \<and> (\<forall>n c a. AddValidator n c a \<in> set cs \<longrightarrow> c = \<lparr>amount = validator_balance t, coin_denom = denom t\<rparr>)
   \<and> (r = Inr () \<longrightarrow>
        (\<forall>v \<in> set (validator_ids t).
           AddAccount (lead_validator t) \<lparr>amount = account_balance t, coin_denom = denom t\<rparr>
             (Account_init api v ''val'' (account_seed t)) \<in> set cs
         \<and> AddValidator v \<lparr>amount = validator_balance t, coin_denom = denom t\<rparr>
             (Account_init api v ''val'' (account_seed t)) \<in> set cs)
      \<and> (\<forall>a \<in> set (account_ids t).
           AddAccount (lead_validator t) \<lparr>amount = account_balance t, coin_denom = denom t\<rparr>
             (Account_init api a ''acc'' (account_seed t)) \<in> set cs))"
proof (intro impI conjI)
  assume run: "prepare api t = (r, t2, cs)"
  show "\<forall>n c a. AddAccount n c a \<in> set cs \<longrightarrow>
        n = lead_validator t \<and> c = \<lparr>amount = account_balance t, coin_denom = denom t\<rparr>"
    using prepare_calls [OF run] by fastforce
  show "\<forall>n c a. AddValidator n c a \<in> set cs \<longrightarrow> c = \<lparr>amount = validator_balance t, coin_denom = denom t\<rparr>"
    using prepare_calls [OF run] by fastforce
  assume ok: "r = Inr ()"
  from run ok have run': "prepare api t = (Inr (), t2, cs)" by simp
  from prepare_Inr_runs [OF run'] obtain s10 ch s11 c11 c12 where
    h: "seq (ceremony_head api t) t = (Inr (), s10, ch)" and cs: "cs = ch @ c11 @ c12" by metis
  from head_Inr_runs [OF h] obtain s5 s6 s7 s9 c4 c5 c6 c7 c8 c9 c10 where
    p6: "fund api (lead_validator t) \<lparr>amount = account_balance t, coin_denom = denom t\<rparr> validators s5 = (Inr (), s6, c6)"
    and p7: "fund api (lead_validator t) \<lparr>amount = account_balance t, coin_denom = denom t\<rparr> accounts s6 = (Inr (), s7, c7)"
    and p10: "stake api (lead_validator t) \<lparr>amount = validator_balance t, coin_denom = denom t\<rparr> s9 = (Inr (), s10, c10)"
    and ch: "ch = Mkdir (data_dir t) # c4 @ c5 @ c6 @ c7 @ c8 @ c9 @ c10"
    and f5: "\<And>tr. frame (created api t) (node_keys api t) s5 tr"
    and f6: "\<And>tr. frame (created api t) (node_keys api t) s6 tr"
    and f9: "\<And>tr. frame (created api t) (node_keys api t) s9 tr" by metis
  have c6: "c6 = map (AddAccount (lead_validator t) \<lparr>amount = account_balance t, coin_denom = denom t\<rparr>)
                  (map snd (validators_of api t))"
    by (rule fund_Inr [OF p6 frame_fields(1) [OF f5]])
  have c7: "c7 = map (AddAccount (lead_validator t) \<lparr>amount = account_balance t, coin_denom = denom t\<rparr>)
                  (map snd (accounts_of api t))"
    by (rule fund_Inr [OF p7 frame_fields(2) [OF f6]])
  show "\<forall>v \<in> set (validator_ids t).
           AddAccount (lead_validator t) \<lparr>amount = account_balance t, coin_denom = denom t\<rparr>
             (Account_init api v ''val'' (account_seed t)) \<in> set cs
         \<and> AddValidator v \<lparr>amount = validator_balance t, coin_denom = denom t\<rparr>
             (Account_init api v ''val'' (account_seed t)) \<in> set cs"
  proof (intro ballI conjI)
    fix v assume v: "v \<in> set (validator_ids t)"
    have "AddAccount (lead_validator t) \<lparr>amount = account_balance t, coin_denom = denom t\<rparr>
             (Account_init api v ''val'' (account_seed t)) \<in> set c6"
      unfolding c6 using validators_of_values [OF v, of api] by (simp add: image_iff)
    then show "AddAccount (lead_validator t) \<lparr>amount = account_balance t, coin_denom = denom t\<rparr>
             (Account_init api v ''val'' (account_seed t)) \<in> set cs"
      by (simp add: cs ch)
    from v have "v \<in> set (node_keys api t)" by (simp add: node_keys_set)
    from stake_Inr_each [OF p10 f9 this] obtain sa sb cn pre post where
      fa: "frame (created api t) (node_keys api t) sa []"
      and sn: "stake_node api (lead_validator t) \<lparr>amount = validator_balance t, coin_denom = denom t\<rparr> v sa = (Inr (), sb, cn)"
      and c10: "c10 = pre @ cn @ post" by blast
    from stake_node_Inr [OF sn frame_fields(1) [OF fa]] validators_of_lookup [OF v, of api]
    have "AddValidator v \<lparr>amount = validator_balance t, coin_denom = denom t\<rparr>
             (Account_init api v ''val'' (account_seed t)) \<in> set cn" by auto
    then show "AddValidator v \<lparr>amount = validator_balance t, coin_denom = denom t\<rparr>
             (Account_init api v ''val'' (account_seed t)) \<in> set cs"
      by (simp add: cs ch c10)
  qed
  show "\<forall>a \<in> set (account_ids t).
           AddAccount (lead_validator t) \<lparr>amount = account_balance t, coin_denom = denom t\<rparr>
             (Account_init api a ''acc'' (account_seed t)) \<in> set cs"
  proof
    fix a assume a: "a \<in> set (account_ids t)"
    have "AddAccount (lead_validator t) \<lparr>amount = account_balance t, coin_denom = denom t\<rparr>
             (Account_init api a ''acc'' (account_seed t)) \<in> set c7"
      unfolding c7 using accounts_of_values [OF a, of api] by (simp add: image_iff)
    then show "AddAccount (lead_validator t) \<lparr>amount = account_balance t, coin_denom = denom t\<rparr>
             (Account_init api a ''acc'' (account_seed t)) \<in> set cs"
      by (simp add: cs ch)
  qed
qed

theorem funding_and_stake_amounts_witness:
  "fst (prepare (spec_api demo_env) fresh_testnet) = Inr ()
   \<and> IdInt 1 \<in> set (validator_ids fresh_testnet)
   \<and> account_balance fresh_testnet \<noteq> validator_balance fresh_testnet
   \<and> AddAccount (IdInt 0) \<lparr>amount = 10 ^ 27, coin_denom = ''stake''\<rparr>
        \<lparr>acc_name = IdInt 1, acc_group = ''val'', acc_seed = Some ''seed'', mnemonic = Some ''seed''\<rparr>
       \<in> set (snd (snd (prepare (spec_api demo_env) fresh_testnet)))
   \<and> AddValidator (IdInt 1) \<lparr>amount = 10 ^ 21, coin_denom = ''stake''\<rparr>
        \<lparr>acc_name = IdInt 1, acc_group = ''val'', acc_seed = Some ''seed'', mnemonic = Some ''seed''\<rparr>
       \<in> set (snd (snd (prepare (spec_api demo_env) fresh_testnet)))"
proof -
  obtain t2 cs where run: "prepare (spec_api demo_env) fresh_testnet = (Inr (), t2, cs)"
    by (rule demo_run_obtain)
  have v: "IdInt 1 \<in> set (validator_ids fresh_testnet)" by (simp add: fresh_testnet_def)
  note th = funding_and_stake_amounts [where api = "spec_api demo_env" and t = fresh_testnet
      and r = "Inr ()" and ?t2.0 = t2 and cs = cs, THEN mp, OF run, THEN conjunct2, THEN conjunct2,
      THEN mp, OF refl, THEN conjunct1, THEN bspec, OF v]
  show ?thesis
    using th run
    by (simp add: fresh_testnet_def Account_init_def spec_api_def demo_env_def)
qed

section \<open>Port allocation and assignment\<close>

lemma port_request_simps [simp]:
  "port_request np (GetFreePorts k a) = (k = np)"
  "port_request np (Mkdir d)" "port_request np (Init n)" "port_request np (SetValue n f v key)"
  "port_request np (AddAccount n co ac)" "port_request np (CopyGenesisFrom n m)"
  "port_request np (UpdatePort n f p key)" "port_request np (GetValue n f key r)"
  "port_request np (AddKey n ac)" "port_request np (AddValidator n co ac)"
  "port_request np (GlobGentx n fs)" "port_request np (Sign n ac pa)"
  "port_request np (CopyGentxFrom n m)" "port_request np (CollectGentx n)"
  by (simp_all add: port_request_def)

lemma ok_allocate_fr:
  assumes "validators s0 = Some V"
  shows "inv (\<lambda>s tr. frame s0 K s tr \<and>
            calls_ok (port_request (int (length ports) * (int (length V) - 1))) s tr) (allocate_ports api)"
  unfolding inv_def triple_def allocate_ports_def bnd_def attr_def lift_def
  using assms
  by (auto simp: frame_def calls_ok_def split: option.splits sum.splits prod.splits)

lemma ok_configure_fr:
  assumes "validators s0 = Some V"
  shows "inv (\<lambda>s tr. frame s0 K s tr \<and>
            calls_ok (port_request (int (length ports) * (int (length V) - 1))) s tr) (configure api lead cn)"
  unfolding configure_def
proof (rule inv_bnd [OF ok_allocate_fr [OF assms]])
  fix rows :: "int list list"
  show "inv (\<lambda>s tr. frame s0 K s tr \<and>
            calls_ok (port_request (int (length ports) * (int (length V) - 1))) s tr)
          (bnd (attr validator_nodes) (\<lambda>ns. configure_nodes api lead cn (map fst ns) rows))"
    by (rule inv_conj) (intro fr_intros fr_configure_nodes, intro inv_intros ok_configure_nodes, simp_all)
qed

lemma prepare_port_request:
  assumes "prepare api t = (r, t1, cs)" and "GetFreePorts k a \<in> set cs"
  shows "k = int (length ports) * (int (card (set (validator_ids t))) - 1)"
proof -
  let ?np = "int (length ports) * (int (length (validators_of api t)) - 1)"
  let ?I = "\<lambda>s tr. frame (created api t) (node_keys api t) s tr \<and> calls_ok (port_request ?np) s tr"
  let ?rest = "[init_nodes api,
      override_genesis api (lead_validator t) (config_genesis t),
      fund api (lead_validator t) \<lparr>amount = account_balance t, coin_denom = denom t\<rparr> validators,
      fund api (lead_validator t) \<lparr>amount = account_balance t, coin_denom = denom t\<rparr> accounts,
      copy_genesis api (lead_validator t),
      configure api (lead_validator t) (config_node t),
      stake api (lead_validator t) \<lparr>amount = validator_balance t, coin_denom = denom t\<rparr>,
      exchange_gentx api, collect_all api]"
  have V: "validators (created api t) = Some (validators_of api t)" by (simp add: created_def)
  have len: "length (validators_of api t) = card (set (validator_ids t))"
    unfolding validators_of_def by (rule dict_of_length)
  have run: "seq (finalize_accounts api # mkdir_data_dir api # create_nodes api # ?rest) t = (r, t1, cs)"
    using assms(1) unfolding prepare_def ceremony_head_def by simp
  have inv: "inv ?I (seq ?rest)"
  proof (rule inv_seq)
    fix p assume "p \<in> set ?rest"
    then consider "p = init_nodes api" | "p = override_genesis api (lead_validator t) (config_genesis t)"
      | d where "p = fund api (lead_validator t) \<lparr>amount = account_balance t, coin_denom = denom t\<rparr> d"
      | "p = copy_genesis api (lead_validator t)" | "p = configure api (lead_validator t) (config_node t)"
      | "p = stake api (lead_validator t) \<lparr>amount = validator_balance t, coin_denom = denom t\<rparr>"
      | "p = exchange_gentx api" | "p = collect_all api"
      by auto
    then show "inv ?I p"
    proof cases
      case 1 show ?thesis unfolding 1 by (rule inv_conj [OF fr_init ok_init]) simp
    next
      case 2 show ?thesis unfolding 2 by (rule inv_conj [OF fr_override ok_override]) simp
    next
      case 3 show ?thesis unfolding 3 by (rule inv_conj [OF fr_fund ok_fund]) simp
    next
      case 4 show ?thesis unfolding 4 by (rule inv_conj [OF fr_copy_genesis ok_copy_genesis]) simp
    next
      case 5 show ?thesis unfolding 5 by (rule ok_configure_fr [OF V])
    next
      case 6 show ?thesis unfolding 6 by (rule inv_conj [OF fr_stake ok_stake]) simp_all
    next
      case 7 show ?thesis unfolding 7 by (rule inv_conj [OF fr_exchange ok_exchange]) simp
    next
      case 8 show ?thesis unfolding 8 by (rule inv_conj [OF fr_collect ok_collect]) simp
    qed
  qed
  from head_start [OF run] show ?thesis
  proof (elim disjE exE conjE)
    fix e assume "cs = [Mkdir (data_dir t)]"
    with assms(2) show ?thesis by simp
  next
    fix c assume 2: "seq ?rest (created api t) = (r, t1, c)" "cs = Mkdir (data_dir t) # c"
    have "?I (created api t) []" by (simp add: frame_created calls_ok_def)
    from invD [of ?I "seq ?rest" "created api t" "[]" r t1 c] inv this 2(1)
    have "calls_ok (port_request ?np) t1 c" by simp
    with assms(2) 2(2) have "k = ?np" by (auto simp: calls_ok_def)
    then show ?thesis by (simp add: len)
  qed
qed

lemma port_updates_append [simp]: "port_updates (a @ b) = port_updates a @ port_updates b"
  by (simp add: port_updates_def)

lemma port_updates_Nil [simp]: "port_updates [] = []"
  by (simp add: port_updates_def)

lemma port_updates_Cons [simp]:
  "port_updates (c # cs) = (case port_update c of None \<Rightarrow> [] | Some u \<Rightarrow> [u]) @ port_updates cs"
  by (simp add: port_updates_def)

lemma port_updates_none: "\<forall>c \<in> set cs. port_update c = None \<Longrightarrow> port_updates cs = []"
  by (induction cs) auto

lemma emitted:
  assumes "inv (calls_ok P) m" and "m s = (r, s1, cs)"
  shows "\<forall>c \<in> set cs. P c"
  using invD [of "calls_ok P" m s "[]" r s1 cs] assms by (simp add: calls_ok_def)

lemma reshape_rows:
  assumes "reshape k xs = Inr rows"
  shows "concat rows = xs" and "\<forall>row \<in> set rows. length row = k" and "length rows * k = length xs"
proof -
  from assms have k: "k \<noteq> 0" "length xs mod k = 0"
    and rows: "rows = map (\<lambda>i. take k (drop (i * k) xs)) [0..<length xs div k]"
    by (auto simp: reshape_def split: if_splits)
  have c: "concat (map (\<lambda>i. take k (drop (i * k) ys)) [0..<m]) = take (m * k) ys" for m and ys :: "'a list"
  proof (induction m)
    case 0
    show ?case by simp
  next
    case (Suc m)
    have "take (m * k) ys @ take k (drop (m * k) ys) = take (m * k + k) ys"
      by (simp add: take_add)
    then show ?case using Suc by (simp add: add.commute)
  qed
  have lk: "length xs div k * k = length xs" using k by auto
  show "concat rows = xs" unfolding rows c lk by simp
  show "length rows * k = length xs" unfolding rows using lk by simp
  show "\<forall>row \<in> set rows. length row = k"
  proof
    fix row assume "row \<in> set rows"
    then obtain i where i: "i < length xs div k" "row = take k (drop (i * k) xs)"
      unfolding rows by auto
    have "(i + 1) * k \<le> length xs div k * k" using i(1) by (intro mult_le_mono1) simp
    then have "i * k + k \<le> length xs" using lk by simp
    then show "length row = k" unfolding i(2) by simp
  qed
qed

lemma str_of_value: "(case v of VStr s \<Rightarrow> VStr s | _ \<Rightarrow> v) = v"
  by (cases v) auto

lemma apply_overrides_Inr:
  assumes "apply_overrides api n cn s = (Inr (), s1, c)"
  shows "c = override_calls n cn"
  unfolding override_calls_def
proof (rule for_each_Inr [OF _ assms [unfolded apply_overrides_def]])
  fix x :: "string \<times> (string \<times> cfg_value) list" and sa sb cc
  assume "x \<in> set cn" and run: "(case x of (cf, configs) \<Rightarrow>
      for_each configs (\<lambda>(k, v). on_node n
           (SetValue n (''config/'' @ cf @ ''.toml'') (case v of VStr s \<Rightarrow> VStr s | _ \<Rightarrow> v) k)
           (node_set api (''config/'' @ cf @ ''.toml'') (case v of VStr s \<Rightarrow> VStr s | _ \<Rightarrow> v) k))) sa = (Inr (), sb, cc)"
  obtain cf configs where x: "x = (cf, configs)" by (cases x)
  from run have run': "for_each configs (\<lambda>(k, v). on_node n
           (SetValue n (''config/'' @ cf @ ''.toml'') v k)
           (node_set api (''config/'' @ cf @ ''.toml'') v k)) sa = (Inr (), sb, cc)"
    by (simp add: x str_of_value)
  have "cc = concat (map (\<lambda>(k, v). [SetValue n (''config/'' @ cf @ ''.toml'') v k]) configs)"
    by (rule for_each_Inr [OF _ run']) (auto dest: on_node_Inr)
  also have "\<dots> = map (\<lambda>(k, v). SetValue n (''config/'' @ cf @ ''.toml'') v k) configs"
    by (induction configs) auto
  finally show "cc = (case x of (cf, configs) \<Rightarrow> map (\<lambda>(k, v). SetValue n (''config/'' @ cf @ ''.toml'') v k) configs)"
    by (simp add: x)
qed

lemma rewrite_ports_Inr:
  assumes "rewrite_ports api n ps s = (Inr (), s1, c)" and "length ps = length ports"
  shows "c = map (\<lambda>(e, p). UpdatePort n (config_file e) (PortInt p) (property_path e)) (zip (map snd ports) ps)"
proof -
  let ?U = "\<lambda>e p. UpdatePort n (config_file e) (PortInt p) (property_path e)"
  have "c = concat (map (\<lambda>(j, e). [?U e (ps ! j)]) (enumerate 0 (map snd ports)))"
    by (rule for_each_Inr [OF _ assms(1) [unfolded rewrite_ports_def]])
       (auto simp: bnd_def lift_def py_index_def split: if_splits prod.splits sum.splits dest: on_node_Inr)
  also have "\<dots> = map (\<lambda>(j, e). ?U e (ps ! j)) (enumerate 0 (map snd ports))"
    by (induction "enumerate 0 (map snd ports)") (auto simp: concat_map_singleton split_def)
  also have "\<dots> = map (\<lambda>(e, p). ?U e p) (zip (map snd ports) ps)"
    using assms(2) by (auto simp: list_eq_iff_nth_eq nth_enumerate_eq)
  finally show ?thesis .
qed

lemma overrides_no_ports:
  assumes "apply_overrides api n cn s = (r, s1, c)"
  shows "port_updates c = []"
proof -
  have "inv (calls_ok (\<lambda>c. port_update c = None)) (apply_overrides api n cn)"
    by (rule ok_overrides) simp
  from emitted [OF this assms] show ?thesis by (rule port_updates_none)
qed

lemma reads_no_ports:
  assumes "read_ports api n s = (r, s1, c)"
  shows "port_updates c = []"
proof -
  have "inv (calls_ok (\<lambda>c. port_update c = None)) (read_ports api n)"
    by (rule ok_read) simp
  from emitted [OF this assms] show ?thesis by (rule port_updates_none)
qed

lemma port_updates_rewrite:
  "port_updates (map (\<lambda>(e, p). UpdatePort n (config_file e) (PortInt p) (property_path e)) xs)
     = map (\<lambda>(e, p). (n, config_file e, property_path e, p)) xs"
  by (induction xs) auto

lemma bnd_Inr_run:
  "bnd m f s = (Inr b, s2, cs) \<Longrightarrow>
   \<exists>a s1 c1 c2. m s = (Inr a, s1, c1) \<and> f a s1 = (Inr b, s2, c2) \<and> cs = c1 @ c2"
  by (auto simp: bnd_def split: prod.splits sum.splits)

lemma bnd_unit_run:
  fixes m :: "(unit, 's) prog"
  shows "bnd m f s = (Inr b, s2, cs) \<Longrightarrow>
   \<exists>s1 c1 c2. m s = (Inr (), s1, c1) \<and> f () s1 = (Inr b, s2, c2) \<and> cs = c1 @ c2"
  by (auto simp: bnd_def split: prod.splits sum.splits)

lemma configure_nodes_Inr:
  assumes "configure_nodes api lead cn K rows s = (Inr (), s1, c)"
    and "\<forall>row \<in> set rows. length row = length ports"
  shows "port_updates c = blocks (filter (\<lambda>n. n \<noteq> lead) K) (rev rows) \<and>
         length (filter (\<lambda>n. n \<noteq> lead) K) \<le> length rows \<and>
         (\<forall>n \<in> set K. set (override_calls n cn) \<subseteq> set c)"
  using assms
proof (induction K arbitrary: rows s c)
  case Nil
  then show ?case by (simp add: ret_def blocks_def)
next
  case (Cons n K)
  from bnd_unit_run [OF Cons.prems(1) [unfolded configure_nodes.simps]]
  obtain sa co c1 where
    o: "apply_overrides api n cn s = (Inr (), sa, co)"
    and r1: "(if n \<noteq> lead then
         (if rows = [] then throw IndexError
          else bnd (rewrite_ports api n (last rows)) (\<lambda>_.
                 bnd (read_ports api n) (\<lambda>_.
                   configure_nodes api lead cn K (butlast rows))))
       else bnd (read_ports api n) (\<lambda>_. configure_nodes api lead cn K rows)) sa = (Inr (), s1, c1)"
    and c: "c = co @ c1" by blast
  have co: "co = override_calls n cn" by (rule apply_overrides_Inr [OF o])
  have pco: "port_updates co = []" by (rule overrides_no_ports [OF o])
  show ?case
  proof (cases "n = lead")
    case True
    from r1 True have "bnd (read_ports api n) (\<lambda>_. configure_nodes api lead cn K rows) sa = (Inr (), s1, c1)"
      by simp
    from bnd_unit_run [OF this] obtain sb cg c2 where
      g: "read_ports api n sa = (Inr (), sb, cg)"
      and r2: "configure_nodes api lead cn K rows sb = (Inr (), s1, c2)" and c1: "c1 = cg @ c2" by blast
    from Cons.IH [OF r2 Cons.prems(2)] reads_no_ports [OF g] pco co
    show ?thesis using True by (auto simp: c c1)
  next
    case False
    with r1 have ne: "rows \<noteq> []" by (auto simp: throw_def)
    with r1 False have "bnd (rewrite_ports api n (last rows)) (\<lambda>_.
                 bnd (read_ports api n) (\<lambda>_.
                   configure_nodes api lead cn K (butlast rows))) sa = (Inr (), s1, c1)" by simp
    from bnd_unit_run [OF this] obtain sb cr c2 where
      w: "rewrite_ports api n (last rows) sa = (Inr (), sb, cr)"
      and r2: "bnd (read_ports api n) (\<lambda>_. configure_nodes api lead cn K (butlast rows)) sb = (Inr (), s1, c2)"
      and c1: "c1 = cr @ c2" by blast
    from bnd_unit_run [OF r2] obtain sc cg c3 where
      g: "read_ports api n sb = (Inr (), sc, cg)"
      and r3: "configure_nodes api lead cn K (butlast rows) sc = (Inr (), s1, c3)" and c2: "c2 = cg @ c3" by blast
    have len: "length (last rows) = length ports" using Cons.prems(2) ne by simp
    have bl: "\<forall>row \<in> set (butlast rows). length row = length ports"
      using Cons.prems(2) by (auto dest: in_set_butlastD)
    have cr: "port_updates cr = map (\<lambda>(e, p). (n, config_file e, property_path e, p)) (zip (map snd ports) (last rows))"
      unfolding rewrite_ports_Inr [OF w len] by (rule port_updates_rewrite)
    have rv: "rev rows = last rows # rev (butlast rows)"
      using ne by (metis append_butlast_last_id rev.simps(2) rev_append rev_rev_ident append_Cons append_Nil rev_singleton_conv)
    from Cons.IH [OF r3 bl] have ih: "port_updates c3 = blocks (filter (\<lambda>n. n \<noteq> lead) K) (rev (butlast rows))"
      "length (filter (\<lambda>n. n \<noteq> lead) K) \<le> length (butlast rows)"
      "\<forall>m \<in> set K. set (override_calls m cn) \<subseteq> set c3" by auto
    have "port_updates c = blocks (filter (\<lambda>n. n \<noteq> lead) (n # K)) (rev rows)"
      using False by (simp add: c c1 c2 pco cr reads_no_ports [OF g] ih(1) rv blocks_def)
    moreover have "length (filter (\<lambda>n. n \<noteq> lead) (n # K)) \<le> length rows"
      using False ih(2) ne by (simp add: Suc_le_eq) (metis One_nat_def Suc_pred length_greater_0_conv less_Suc_eq_le not_less_eq)
    moreover have "\<forall>m \<in> set (n # K). set (override_calls m cn) \<subseteq> set c"
      using ih(3) co by (auto simp: c c1 c2)
    ultimately show ?thesis by blast
  qed
qed

lemma quiet_trace:
  assumes "\<forall>c \<in> set cs. quiet c"
  shows "port_updates cs = []" and "filter is_port_request cs = []"
  using assms by (auto simp: quiet_def intro: port_updates_none)

lemma configure_Inr:
  assumes "configure api lead cn s = (Inr (), s1, c)" and "frame s0 K s []" and "validators s0 = Some V"
  shows "\<exists>flat rows c1.
           get_free_ports api (int (length ports) * (int (length V) - 1)) = Inr flat \<and>
           reshape (length ports) flat = Inr rows \<and>
           c = GetFreePorts (int (length ports) * (int (length V) - 1)) (Inr flat) # c1 \<and>
           configure_nodes api lead cn K rows s = (Inr (), s1, c1)"
proof -
  from assms(2,3) obtain ns where ns: "validator_nodes s = Some ns" "map fst ns = K" "validators s = Some V"
    by (auto simp: frame_def)
  show ?thesis
    using assms(1) ns
    by (auto simp: configure_def allocate_ports_def bnd_def attr_def lift_def
          split: prod.splits sum.splits option.splits)
qed

lemma on_node_Inr_key:
  "on_node nid c f s = (Inr a, s1, cs) \<Longrightarrow> \<exists>ns. validator_nodes s = Some ns \<and> nid \<in> set (map fst ns)"
  by (auto simp: on_node_def split: option.splits prod.splits dest!: map_of_SomeD intro: rev_image_eqI)

lemma fund_lead_key:
  assumes "fund api lead coin dict s = (Inr (), s1, c)" and "dict s = Some d" and "d \<noteq> []"
    and "has_nodes K s"
  shows "lead \<in> set K"
proof -
  obtain a d' where d: "map snd d = a # d'" using assms(3) by (cases d) auto
  have "for_each (a # d') (\<lambda>a. on_node lead (AddAccount lead coin a) (node_add_account api coin a)) s = (Inr (), s1, c)"
    using assms(1,2) d by (simp add: fund_def bnd_def attr_def)
  from bnd_unit_run [OF this [unfolded for_each.simps]] obtain sa ca where
    "on_node lead (AddAccount lead coin a) (node_add_account api coin a) s = (Inr (), sa, ca)" by blast
  from on_node_Inr_key [OF this] assms(4) show ?thesis by (force simp: has_nodes_def)
qed


lemma blocks_mem:
  assumes "(n, f, k, p) \<in> set (blocks nodes rows)"
  shows "n \<in> set nodes \<and> p \<in> set (concat rows) \<and>
   (f, k) \<in> set (map (\<lambda>e. (config_file e, property_path e)) (map snd ports))"
proof -
  from assms obtain m row e where 1: "(m, row) \<in> set (zip nodes rows)"
    and 3: "(e, p) \<in> set (zip (map snd ports) row)" "n = m" "f = config_file e" "k = property_path e"
    unfolding blocks_def by fastforce
  from 1 have "m \<in> set nodes" "row \<in> set rows" by (auto dest: set_zip_leftD set_zip_rightD)
  moreover from 3(1) have "e \<in> set (map snd ports)" "p \<in> set row" by (auto dest: set_zip_leftD set_zip_rightD)
  ultimately show ?thesis using 3(2-4) by auto
qed

lemma port_updates_mem: "(n, f, k, p) \<in> set (port_updates cs) \<longleftrightarrow> UpdatePort n f (PortInt p) k \<in> set cs"
proof (induction cs)
  case Nil
  show ?case by simp
next
  case (Cons c cs)
  show ?case
    using Cons by (cases c rule: port_update.cases) auto
qed

lemma quiet_simps [simp]:
  "quiet (Mkdir d)" "quiet (Init n)" "quiet (SetValue n f v key)"
  "quiet (AddAccount n co ac)" "quiet (CopyGenesisFrom n m)"
  "quiet (UpdatePort n f (PortStr ps) key)" "quiet (GetValue n f key r)"
  "quiet (AddKey n ac)" "quiet (AddValidator n co ac)"
  "quiet (GlobGentx n fs)" "quiet (Sign n ac pa)"
  "quiet (CopyGentxFrom n m)" "quiet (CollectGentx n)"
  by (simp_all add: quiet_def)

lemma configure_nodes_quiet:
  assumes "configure_nodes api lead cn K rows s = (r, s1, c)"
  shows "filter is_port_request c = []"
proof -
  have "inv (calls_ok (\<lambda>c. \<not> is_port_request c)) (configure_nodes api lead cn K rows)"
    by (rule ok_configure_nodes) simp_all
  from emitted [OF this assms] show ?thesis by (simp add: filter_empty_conv)
qed

lemma prepare_ports:
  assumes "prepare api t = (Inr (), t2, cs)"
  obtains flat rows where
    "reshape (length ports) flat = Inr rows"
    "filter is_port_request cs
       = [GetFreePorts (int (length ports) * (int (card (set (validator_ids t))) - 1)) (Inr flat)]"
    "port_updates cs = blocks (filter (\<lambda>n. n \<noteq> lead_validator t) (node_keys api t)) (rev rows)"
    "length (filter (\<lambda>n. n \<noteq> lead_validator t) (node_keys api t)) \<le> length rows"
    "\<forall>n \<in> set (node_keys api t). set (override_calls n (config_node t)) \<subseteq> set cs"
    "node_keys api t = [] \<or> lead_validator t \<in> set (node_keys api t)"
proof -
  let ?ca = "\<lparr>amount = account_balance t, coin_denom = denom t\<rparr>"
  let ?cv = "\<lparr>amount = validator_balance t, coin_denom = denom t\<rparr>"
  from prepare_Inr_runs [OF assms] obtain s10 ch s11 c11 c12 where
    h: "seq (ceremony_head api t) t = (Inr (), s10, ch)"
    and p11: "exchange_gentx api s10 = (Inr (), s11, c11)"
    and p12: "collect_all api s11 = (Inr (), t2, c12)"
    and cs: "cs = ch @ c11 @ c12" by metis
  from head_Inr_runs [OF h] obtain s4 s5 s6 s7 s8 s9 c4 c5 c6 c7 c8 c9 c10 where
    p4: "init_nodes api (created api t) = (Inr (), s4, c4)"
    and p5: "override_genesis api (lead_validator t) (config_genesis t) s4 = (Inr (), s5, c5)"
    and p6: "fund api (lead_validator t) ?ca validators s5 = (Inr (), s6, c6)"
    and p7: "fund api (lead_validator t) ?ca accounts s6 = (Inr (), s7, c7)"
    and p8: "copy_genesis api (lead_validator t) s7 = (Inr (), s8, c8)"
    and p9: "configure api (lead_validator t) (config_node t) s8 = (Inr (), s9, c9)"
    and p10: "stake api (lead_validator t) ?cv s9 = (Inr (), s10, c10)"
    and ch: "ch = Mkdir (data_dir t) # c4 @ c5 @ c6 @ c7 @ c8 @ c9 @ c10"
    and f5: "\<And>tr. frame (created api t) (node_keys api t) s5 tr"
    and f8: "\<And>tr. frame (created api t) (node_keys api t) s8 tr" by metis
  have q4: "\<forall>c \<in> set c4. quiet c" by (rule emitted [OF ok_init p4]) simp
  have q5: "\<forall>c \<in> set c5. quiet c" by (rule emitted [OF ok_override p5]) simp
  have q6: "\<forall>c \<in> set c6. quiet c" by (rule emitted [OF ok_fund p6]) simp
  have q7: "\<forall>c \<in> set c7. quiet c" by (rule emitted [OF ok_fund p7]) simp
  have q8: "\<forall>c \<in> set c8. quiet c" by (rule emitted [OF ok_copy_genesis p8]) simp
  have q10: "\<forall>c \<in> set c10. quiet c" by (rule emitted [OF ok_stake p10]) simp_all
  have q11: "\<forall>c \<in> set c11. quiet c" by (rule emitted [OF ok_exchange p11]) simp
  have q12: "\<forall>c \<in> set c12. quiet c" by (rule emitted [OF ok_collect p12]) simp
  note q = quiet_trace [OF q4] quiet_trace [OF q5] quiet_trace [OF q6] quiet_trace [OF q7]
    quiet_trace [OF q8] quiet_trace [OF q10] quiet_trace [OF q11] quiet_trace [OF q12]
  have V: "validators (created api t) = Some (validators_of api t)" by (simp add: created_def)
  have len: "length (validators_of api t) = card (set (validator_ids t))"
    unfolding validators_of_def by (rule dict_of_length)
  from configure_Inr [OF p9 f8 V] obtain flat rows c1 where
    rs: "reshape (length ports) flat = Inr rows"
    and c9: "c9 = GetFreePorts (int (length ports) * (int (length (validators_of api t)) - 1)) (Inr flat) # c1"
    and cn: "configure_nodes api (lead_validator t) (config_node t) (node_keys api t) rows s8 = (Inr (), s9, c1)"
    by blast
  from configure_nodes_Inr [OF cn reshape_rows(2) [OF rs]] have
    pu: "port_updates c1 = blocks (filter (\<lambda>n. n \<noteq> lead_validator t) (node_keys api t)) (rev rows)"
    and le: "length (filter (\<lambda>n. n \<noteq> lead_validator t) (node_keys api t)) \<le> length rows"
    and ov: "\<forall>n \<in> set (node_keys api t). set (override_calls n (config_node t)) \<subseteq> set c1" by auto
  have 1: "filter is_port_request cs
       = [GetFreePorts (int (length ports) * (int (card (set (validator_ids t))) - 1)) (Inr flat)]"
    by (simp add: cs ch c9 q configure_nodes_quiet [OF cn] len)
  have 2: "port_updates cs = blocks (filter (\<lambda>n. n \<noteq> lead_validator t) (node_keys api t)) (rev rows)"
    by (simp add: cs ch c9 q pu)
  have 3: "\<forall>n \<in> set (node_keys api t). set (override_calls n (config_node t)) \<subseteq> set cs"
    using ov by (auto simp: cs ch c9)
  have 4: "node_keys api t = [] \<or> lead_validator t \<in> set (node_keys api t)"
  proof (cases "validators_of api t = []")
    case True
    then show ?thesis by (simp add: node_keys_def)
  next
    case False
    from fund_lead_key [OF p6 frame_fields(1) [OF f5] False frame_fields(3) [OF f5]]
    show ?thesis by simp
  qed
  show ?thesis by (rule that [OF rs 1 2 le 3 4])
qed





lemma blocks_cover:
  assumes "length nodes \<le> length rows" and "\<forall>row \<in> set rows. length row = length ports"
    and "n \<in> set nodes" and "e \<in> set (map snd ports)"
  shows "\<exists>p. (n, config_file e, property_path e, p) \<in> set (blocks nodes rows)"
proof -
  from assms(3) obtain i where i: "i < length nodes" "nodes ! i = n" by (auto simp: in_set_conv_nth)
  from assms(4) obtain j where j: "j < length (map snd ports)" "map snd ports ! j = e"
    unfolding in_set_conv_nth by blast
  have ir: "i < length rows" using i(1) assms(1) by simp
  then have lr: "length (rows ! i) = length ports" using assms(2) by simp
  have 1: "(n, rows ! i) \<in> set (zip nodes rows)"
    using i ir by (auto simp: in_set_zip intro!: exI [of _ i])
  have 2: "(e, rows ! i ! j) \<in> set (zip (map snd ports) (rows ! i))"
    using j lr by (auto simp: in_set_zip intro!: exI [of _ j])
  from 1 2 have "(n, config_file e, property_path e, rows ! i ! j) \<in> set (blocks nodes rows)"
    unfolding blocks_def by force
  then show ?thesis ..
qed


text \<open>
  C6.  Every port request of \<^verbatim>\<open>prepare\<close> asks for \<^verbatim>\<open>len(ports()) * (N - 1)\<close> ports, \<open>N\<close>
  the number of validators, and no run rewrites a listening address of the lead node.
  When \<^verbatim>\<open>prepare\<close> returns, there has been exactly one request; every port written is
  one of the ports it returned, at a place of the port table; every node other than the
  lead has had every place of the table rewritten; and every declared config override has
  been set on every node, the lead included.
\<close>

theorem port_allocation:
  "prepare api t = (r, t2, cs) \<longrightarrow>
     (\<forall>k a. GetFreePorts k a \<in> set cs \<longrightarrow>
        k = int (length ports) * (int (card (set (validator_ids t))) - 1))
   \<and> (\<forall>n f p k. UpdatePort n f p k \<in> set cs \<longrightarrow> n \<noteq> lead_validator t)
   \<and> (r = Inr () \<longrightarrow>
       (\<exists>flat. filter is_port_request cs
                 = [GetFreePorts (int (length ports) * (int (card (set (validator_ids t))) - 1)) (Inr flat)]
          \<and> (\<forall>n f p k. UpdatePort n f (PortInt p) k \<in> set cs \<longrightarrow>
                p \<in> set flat \<and> (f, k) \<in> set (map (\<lambda>e. (config_file e, property_path e)) (map snd ports))))
     \<and> (\<forall>n \<in> set (validator_ids t). n \<noteq> lead_validator t \<longrightarrow>
          (\<forall>e \<in> set (map snd ports). \<exists>p. UpdatePort n (config_file e) (PortInt p) (property_path e) \<in> set cs))
     \<and> (\<forall>n \<in> set (validator_ids t). \<forall>(cf, configs) \<in> set (config_node t). \<forall>(k, v) \<in> set configs.
           SetValue n (''config/'' @ cf @ ''.toml'') v k \<in> set cs))"
proof (intro impI conjI)
  assume run: "prepare api t = (r, t2, cs)"
  show "\<forall>k a. GetFreePorts k a \<in> set cs \<longrightarrow>
        k = int (length ports) * (int (card (set (validator_ids t))) - 1)"
    using prepare_port_request [OF run] by blast
  show "\<forall>n f p k. UpdatePort n f p k \<in> set cs \<longrightarrow> n \<noteq> lead_validator t"
    using prepare_calls [OF run] by fastforce
  assume "r = Inr ()"
  with run have run': "prepare api t = (Inr (), t2, cs)" by simp
  let ?nl = "filter (\<lambda>n. n \<noteq> lead_validator t) (node_keys api t)"
  from prepare_ports [OF run'] obtain flat rows where
    rs: "reshape (length ports) flat = Inr rows"
    and gf: "filter is_port_request cs
       = [GetFreePorts (int (length ports) * (int (card (set (validator_ids t))) - 1)) (Inr flat)]"
    and pu: "port_updates cs = blocks ?nl (rev rows)"
    and le: "length ?nl \<le> length rows"
    and ov: "\<forall>n \<in> set (node_keys api t). set (override_calls n (config_node t)) \<subseteq> set cs" by metis
  have "p \<in> set flat \<and> (f, k) \<in> set (map (\<lambda>e. (config_file e, property_path e)) (map snd ports))"
    if "UpdatePort n f (PortInt p) k \<in> set cs" for n f p k
  proof -
    from that have "(n, f, k, p) \<in> set (blocks ?nl (rev rows))"
      by (simp add: port_updates_mem [symmetric] pu)
    from blocks_mem [OF this] reshape_rows(1) [OF rs] show ?thesis by auto
  qed
  with gf show "\<exists>flat. filter is_port_request cs
                 = [GetFreePorts (int (length ports) * (int (card (set (validator_ids t))) - 1)) (Inr flat)]
          \<and> (\<forall>n f p k. UpdatePort n f (PortInt p) k \<in> set cs \<longrightarrow>
                p \<in> set flat \<and> (f, k) \<in> set (map (\<lambda>e. (config_file e, property_path e)) (map snd ports)))"
    by blast
  show "\<forall>n \<in> set (validator_ids t). n \<noteq> lead_validator t \<longrightarrow>
          (\<forall>e \<in> set (map snd ports). \<exists>p. UpdatePort n (config_file e) (PortInt p) (property_path e) \<in> set cs)"
  proof (intro ballI impI)
    fix n e assume n: "n \<in> set (validator_ids t)" "n \<noteq> lead_validator t" and e: "e \<in> set (map snd ports)"
    have "n \<in> set ?nl" using n by (simp add: node_keys_set)
    moreover have "length ?nl \<le> length (rev rows)" using le by simp
    moreover have "\<forall>row \<in> set (rev rows). length row = length ports"
      using reshape_rows(2) [OF rs] by simp
    ultimately obtain p where "(n, config_file e, property_path e, p) \<in> set (blocks ?nl (rev rows))"
      using blocks_cover [of ?nl "rev rows" n e] e by blast
    then show "\<exists>p. UpdatePort n (config_file e) (PortInt p) (property_path e) \<in> set cs"
      by (auto simp: port_updates_mem [symmetric] pu)
  qed
  show "\<forall>n \<in> set (validator_ids t). \<forall>(cf, configs) \<in> set (config_node t). \<forall>(k, v) \<in> set configs.
           SetValue n (''config/'' @ cf @ ''.toml'') v k \<in> set cs"
  proof (intro ballI, clarify)
    fix n cf configs k v
    assume n: "n \<in> set (validator_ids t)" and c: "(cf, configs) \<in> set (config_node t)" "(k, v) \<in> set configs"
    have "SetValue n (''config/'' @ cf @ ''.toml'') v k \<in> set (override_calls n (config_node t))"
      unfolding override_calls_def using c by force
    with ov n show "SetValue n (''config/'' @ cf @ ''.toml'') v k \<in> set cs"
      by (auto simp: node_keys_set)
  qed
qed



theorem port_allocation_witness:
  "fst (prepare (spec_api demo_env) fresh_testnet) = Inr ()
   \<and> IdInt 0 = lead_validator fresh_testnet
   \<and> SetValue (IdInt 0) ''config/app.toml'' (VStr ''tcp://0.0.0.0:1318'') ''api.address''
       \<in> set (snd (snd (prepare (spec_api demo_env) fresh_testnet)))
   \<and> (\<exists>p. UpdatePort (IdInt 1) ''config/app.toml'' (PortInt p) ''grpc.address''
       \<in> set (snd (snd (prepare (spec_api demo_env) fresh_testnet))))"
proof -
  obtain t2 cs where run: "prepare (spec_api demo_env) fresh_testnet = (Inr (), t2, cs)"
    by (rule demo_run_obtain)
  note th = port_allocation [where api = "spec_api demo_env" and t = fresh_testnet and r = "Inr ()"
      and ?t2.0 = t2 and cs = cs, THEN mp, OF run]
  have v: "IdInt 0 \<in> set (validator_ids fresh_testnet)" by (simp add: fresh_testnet_def)
  have c: "(''app'', [(''api.address'', VStr ''tcp://0.0.0.0:1318'')]) \<in> set (config_node fresh_testnet)"
    by (simp add: fresh_testnet_def)
  have v1: "IdInt 1 \<in> set (validator_ids fresh_testnet)" by (simp add: fresh_testnet_def)
  have l1: "IdInt 1 \<noteq> lead_validator fresh_testnet" by (simp add: fresh_testnet_def)
  have e: "\<lparr>title = ''gRPC'', config_file = ''config/app.toml'', property_path = ''grpc.address''\<rparr>
             \<in> set (map snd ports)"
    by (simp add: ports_def)
  from th [THEN conjunct2, THEN conjunct2, THEN mp, OF refl, THEN conjunct2, THEN conjunct2, THEN bspec, OF v,
      THEN bspec, OF c]
  have 1: "SetValue (IdInt 0) ''config/app.toml'' (VStr ''tcp://0.0.0.0:1318'') ''api.address'' \<in> set cs"
    by simp
  from th [THEN conjunct2, THEN conjunct2, THEN mp, OF refl, THEN conjunct2, THEN conjunct1, THEN bspec, OF v1,
      THEN mp, OF l1, THEN bspec, OF e]
  have 2: "\<exists>p. UpdatePort (IdInt 1) ''config/app.toml'' (PortInt p) ''grpc.address'' \<in> set cs"
    by simp
  from 1 2 run show ?thesis by (simp add: fresh_testnet_def)
qed

section \<open>The memo of a gentx is rewritten, then the file is signed\<close>










lemma p2p_port:
  "map_of ports ''p2p'' = Some \<lparr>title = ''P2P'', config_file = ''config/config.toml'', property_path = ''p2p.laddr''\<rparr>"
  by (simp add: ports_def)



lemma neutral_simps [simp]:
  "neutral (Mkdir d)" "neutral (Init n)" "neutral (SetValue n f v key)"
  "neutral (AddAccount n co ac)" "neutral (CopyGenesisFrom n m)"
  "neutral (UpdatePort n f (PortInt pi) key)" "neutral (GetValue n f key r)"
  "neutral (AddKey n ac)" "neutral (AddValidator n co ac)"
  "neutral (GlobGentx n fs)" "neutral (GetFreePorts k a)"
  "neutral (CopyGentxFrom n m)" "neutral (CollectGentx n)"
  by simp_all






section \<open>The exchange of the gentx files\<close>

lemma head_staging: "inv (calls_ok staging) (seq (ceremony_head api t))"
proof (rule inv_seq)
  fix p :: "(unit, 'a Testnet) prog"
  assume "p \<in> set (ceremony_head api t)"
  then consider "p = finalize_accounts api" | "p = mkdir_data_dir api" | "p = create_nodes api"
    | "p = init_nodes api" | "p = override_genesis api (lead_validator t) (config_genesis t)"
    | d where "p = fund api (lead_validator t) \<lparr>amount = account_balance t, coin_denom = denom t\<rparr> d"
    | "p = copy_genesis api (lead_validator t)" | "p = configure api (lead_validator t) (config_node t)"
    | "p = stake api (lead_validator t) \<lparr>amount = validator_balance t, coin_denom = denom t\<rparr>"
    by (auto simp: ceremony_head_def)
  then show "inv (calls_ok staging) p"
  proof cases
    case 8
    show ?thesis unfolding 8 by (rule ok_configure) simp_all
  qed (auto intro!: ok_finalize ok_mkdir ok_create ok_init ok_override ok_fund ok_copy_genesis ok_stake)
qed

lemma exchange_imports: "inv (calls_ok is_import) (exchange_gentx api)"
  by (rule ok_exchange) simp

lemma collect_collects: "inv (calls_ok is_collect) (collect_all api)"
  by (rule ok_collect) simp

lemma for_each_Inr_inv:
  assumes "\<And>x s s1 cs. x \<in> set xs \<Longrightarrow> I s \<Longrightarrow> body x s = (Inr (), s1, cs) \<Longrightarrow> cs = g x \<and> I s1"
    and "I s" and "for_each xs body s = (Inr (), s1, cs)"
  shows "cs = concat (map g xs) \<and> I s1"
  using assms
proof (induction xs arbitrary: s cs)
  case Nil
  then show ?case by (simp add: ret_def)
next
  case (Cons x xs)
  from Cons.prems(3) obtain s2 c1 c2 where
    1: "body x s = (Inr (), s2, c1)" and 2: "for_each xs body s2 = (Inr (), s1, c2)" and 3: "cs = c1 @ c2"
    by (auto simp: bnd_def split: prod.splits sum.splits)
  have a: "c1 = g x \<and> I s2" using Cons.prems(1) [of x s s2 c1] Cons.prems(2) 1 by simp
  have "c2 = concat (map g xs) \<and> I s1"
    using Cons.IH [OF _ _ 2] Cons.prems(1) a by auto
  then show ?case using 3 a by simp
qed

lemma on_node_from_nodes:
  "on_node_from nid other c f s = (r, s1, cs) \<Longrightarrow> has_nodes K s \<Longrightarrow> has_nodes K s1"
  by (auto simp: on_node_from_def has_nodes_def update_keys_present split: option.splits prod.splits)

lemma on_node_nodes:
  "on_node nid c f s = (r, s1, cs) \<Longrightarrow> has_nodes K s \<Longrightarrow> has_nodes K s1"
  by (auto simp: on_node_def has_nodes_def update_keys_present split: option.splits prod.splits)

lemma exchange_Inr:
  assumes "exchange_gentx api s = (Inr (), s1, cs)" and "has_nodes K s"
  shows "cs = exchange_calls K"
proof -
  let ?inner = "\<lambda>id_a id_b. if id_a \<noteq> id_b
             then on_node_from id_a id_b (CopyGentxFrom id_a id_b) (node_copy_gentx_from api)
             else ret ()"
  let ?body = "\<lambda>id_a. bnd (attr validator_nodes) (\<lambda>ns_b. for_each (map fst ns_b) (?inner id_a))"
  have inner: "c = (if a \<noteq> b then [CopyGentxFrom a b] else []) \<and> has_nodes K sb"
    if "has_nodes K sa" "?inner a b sa = (Inr (), sb, c)" for a b sa sb c
    using that by (auto simp: ret_def dest: on_node_from_Inr on_node_from_nodes split: if_splits)
  have outer: "c = concat (map (\<lambda>b. if a \<noteq> b then [CopyGentxFrom a b] else []) K) \<and> has_nodes K sb"
    if h: "has_nodes K sa" and r: "?body a sa = (Inr (), sb, c)" for a sa sb c
  proof -
    from h obtain ns where ns: "validator_nodes sa = Some ns" "map fst ns = K"
      by (auto simp: has_nodes_def)
    have run: "for_each K (?inner a) sa = (Inr (), sb, c)"
      using r ns by (simp add: bnd_def attr_def)
    show ?thesis
      by (rule for_each_Inr_inv [where I = "has_nodes K", OF _ h run]) (rule inner)
  qed
  from assms(2) obtain ns where ns: "validator_nodes s = Some ns" "map fst ns = K"
    by (auto simp: has_nodes_def)
  have run: "for_each K ?body s = (Inr (), s1, cs)"
    using assms(1) ns by (simp add: exchange_gentx_def bnd_def attr_def)
  have "cs = concat (map (\<lambda>a. concat (map (\<lambda>b. if a \<noteq> b then [CopyGentxFrom a b] else []) K)) K) \<and> has_nodes K s1"
    by (rule for_each_Inr_inv [where I = "has_nodes K", OF _ assms(2) run]) (rule outer)
  then show ?thesis by (simp add: exchange_calls_def)
qed

lemma exchange_calls_mem: "a \<in> set K \<Longrightarrow> b \<in> set K \<Longrightarrow> a \<noteq> b \<Longrightarrow> CopyGentxFrom a b \<in> set (exchange_calls K)"
  by (auto simp: exchange_calls_def)

lemma prepare_runs:
  assumes "prepare api t = (r, t2, cs)"
  shows "(\<forall>c \<in> set cs. \<not> is_collect c) \<or>
         (\<exists>s10 ch s11 c12. seq (ceremony_head api t) t = (Inr (), s10, ch) \<and>
            exchange_gentx api s10 = (Inr (), s11, exchange_calls (node_keys api t)) \<and>
            collect_all api s11 = (r, t2, c12) \<and>
            cs = ch @ exchange_calls (node_keys api t) @ c12 \<and>
            (\<forall>c \<in> set ch. staging c) \<and> (\<forall>c \<in> set c12. is_collect c))"
proof -
  from seq_append_run [of "ceremony_head api t" "[exchange_gentx api, collect_all api]" t r t2 cs] assms
  consider e where "r = Inl e" "seq (ceremony_head api t) t = (Inl e, t2, cs)"
    | s10 ch d where "seq (ceremony_head api t) t = (Inr (), s10, ch)"
      "seq [exchange_gentx api, collect_all api] s10 = (r, t2, d)" "cs = ch @ d"
    unfolding prepare_def by blast
  then show ?thesis
  proof cases
    case 1
    from invD [OF head_staging, of t "[]" api t "Inl e" t2 cs] 1(2)
    have "\<forall>c \<in> set cs. staging c" by (simp add: calls_ok_def)
    moreover have "staging c \<Longrightarrow> \<not> is_collect c" for c by (cases c) auto
    ultimately show ?thesis by blast
  next
    case 2
    from invD [OF head_staging, of t "[]" api t "Inr ()" s10 ch] 2(1)
    have st: "\<forall>c \<in> set ch. staging c" by (simp add: calls_ok_def)
    have nc: "staging c \<Longrightarrow> \<not> is_collect c" for c by (cases c) auto
    from seq_Cons_run [OF 2(2)]
    consider e where "r = Inl e" "exchange_gentx api s10 = (Inl e, t2, d)"
      | s11 c11 d11 where "exchange_gentx api s10 = (Inr (), s11, c11)"
        "seq [collect_all api] s11 = (r, t2, d11)" "d = c11 @ d11"
      by blast
    then show ?thesis
    proof cases
      case 1
      from invD [OF exchange_imports, of s10 "[]" api "Inl e" t2 d] 1(2)
      have "\<forall>c \<in> set d. is_import c" by (simp add: calls_ok_def)
      moreover have "is_import c \<Longrightarrow> \<not> is_collect c" for c by (cases c) auto
      ultimately show ?thesis using st nc 2(3) by auto
    next
      case 2
      note x = this
      have f10: "frame (created api t) (node_keys api t) s10 []"
        by (rule head_Inr_runs [OF \<open>seq (ceremony_head api t) t = (Inr (), s10, ch)\<close>])
      then have "has_nodes (node_keys api t) s10" by (rule frame_fields)
      from exchange_Inr [OF x(1) this] have c11: "c11 = exchange_calls (node_keys api t)" .
      from seq_Cons_run [OF x(2)]
      have "(\<exists>e. r = Inl e \<and> collect_all api s11 = (Inl e, t2, d11)) \<or>
            (\<exists>s1 c1 c2. collect_all api s11 = (Inr (), s1, c1) \<and> seq [] s1 = (r, t2, c2) \<and> d11 = c1 @ c2)" .
      then have col: "collect_all api s11 = (r, t2, d11)"
        by (auto simp: ret_def)
      from invD [OF collect_collects, of s11 "[]" api r t2 d11] col
      have "\<forall>c \<in> set d11. is_collect c" by (simp add: calls_ok_def)
      with st c11 x col \<open>seq (ceremony_head api t) t = (Inr (), s10, ch)\<close> \<open>cs = ch @ d\<close>
      show ?thesis by auto
    qed
  qed
qed

lemma collect_position:
  assumes "prepare api t = (r, t2, cs)" and "i < length cs" and "cs ! i = CollectGentx n"
  shows "(\<forall>a \<in> set (validator_ids t). \<forall>b \<in> set (validator_ids t). a \<noteq> b \<longrightarrow> CopyGentxFrom a b \<in> set (take i cs))
         \<and> (\<forall>j. i < j \<and> j < length cs \<longrightarrow> is_collect (cs ! j))"
proof -
  let ?X = "exchange_calls (node_keys api t)"
  have "\<not> (\<forall>c \<in> set cs. \<not> is_collect c)"
  proof
    assume a: "\<forall>c \<in> set cs. \<not> is_collect c"
    have "cs ! i \<in> set cs" using assms(2) by simp
    with a assms(3) show False by auto
  qed
  with prepare_runs [OF assms(1)] obtain ch c12 where
    cs: "cs = ch @ ?X @ c12" and st: "\<forall>c \<in> set ch. staging c" and co: "\<forall>c \<in> set c12. is_collect c"
    by blast
  have imp: "\<forall>c \<in> set ?X. is_import c" by (auto simp: exchange_calls_def)
  have lo: "length (ch @ ?X) \<le> i"
  proof (rule ccontr)
    assume "\<not> length (ch @ ?X) \<le> i"
    then have "i < length (ch @ ?X)" by simp
    then have "cs ! i \<in> set (ch @ ?X)" unfolding cs by (metis append_assoc nth_append nth_mem)
    with st imp have "staging (cs ! i) \<or> is_import (cs ! i)" by auto
    with assms(3) show False by simp
  qed
  have tk: "take i cs = (ch @ ?X) @ take (i - length (ch @ ?X)) c12"
    using lo unfolding cs by simp
  have 1: "CopyGentxFrom a b \<in> set (take i cs)"
    if "a \<in> set (validator_ids t)" "b \<in> set (validator_ids t)" "a \<noteq> b" for a b
    using exchange_calls_mem [of a "node_keys api t" b] that unfolding tk by (simp add: node_keys_set)
  have 2: "is_collect (cs ! j)" if "i < j" "j < length cs" for j
  proof -
    have "cs ! j = c12 ! (j - length (ch @ ?X))"
      using that lo unfolding cs by (metis append_assoc le_less_trans less_imp_le_nat not_less nth_append)
    moreover have "j - length (ch @ ?X) < length c12" using that lo unfolding cs by auto
    ultimately show ?thesis using co by simp
  qed
  from 1 2 show ?thesis by blast
qed

lemma map_update_same:
  "map_of xs k = Some v \<Longrightarrow> g (k, v1) = g (k, v) \<Longrightarrow> map g (AList.update k v1 xs) = map g xs"
  by (induction xs) (auto split: if_splits)

lemma map_update_view:
  "(\<And>k v. g (k, v) = (k, h v)) \<Longrightarrow> map g (AList.update k v xs) = AList.update k (h v) (map g xs)"
  by (induction xs) auto

lemma map_of_view:
  "(\<And>k v. g (k, v) = (k, h v)) \<Longrightarrow> map_of (map g xs) k = map_option h (map_of xs k)"
  by (induction xs) auto

lemma gentx_view_update:
  "gentx_view (n\<lparr>n_gentx := AList.update f e (n_gentx n)\<rparr>) = AList.update f (gt_validator e, gt_stake e) (gentx_view n)"
  unfolding gentx_view_def by (simp add: map_update_view [where h = "\<lambda>e. (gt_validator e, gt_stake e)"])

lemma gentx_view_lookup:
  "map_of (gentx_view n) f = map_option (\<lambda>e. (gt_validator e, gt_stake e)) (map_of (n_gentx n) f)"
  unfolding gentx_view_def by (rule map_of_view) simp

lemma spec_write_view:
  assumes "spec_write file f key n = (r, n1)"
  shows "n_args n1 = n_args n \<and> funded n1 = funded n \<and> gentx_view n1 = gentx_view n"
  using assms unfolding spec_write_def funded_def
  by (auto simp: gentx_view_def map_update_same split: if_splits option.splits sum.splits cfg_value.splits)

lemma spec_set_view:
  "spec_set file v key n = (r, n1) \<Longrightarrow> n_args n1 = n_args n \<and> funded n1 = funded n \<and> gentx_view n1 = gentx_view n"
  unfolding spec_set_def by (rule spec_write_view)

lemma spec_update_view:
  "spec_update file g key n = (r, n1) \<Longrightarrow> n_args n1 = n_args n \<and> funded n1 = funded n \<and> gentx_view n1 = gentx_view n"
  unfolding spec_update_def by (rule spec_write_view)

lemma spec_sign_view:
  "spec_sign a p n = (r, n1) \<Longrightarrow> n_args n1 = n_args n \<and> funded n1 = funded n \<and> gentx_view n1 = gentx_view n"
  unfolding spec_sign_def funded_def
  by (auto simp: gentx_view_def map_update_same split: if_splits option.splits)

lemma spec_add_key_view:
  "spec_add_key a n = (r, n1) \<Longrightarrow> n_args n1 = n_args n \<and> funded n1 = funded n \<and> gentx_view n1 = gentx_view n"
  unfolding spec_add_key_def funded_def by (auto simp: gentx_view_def)

lemma spec_init_view:
  "spec_init env n = (r, n1) \<Longrightarrow> n_args n1 = n_args n \<and> gentx_view n1 = []"
  unfolding spec_init_def by (auto simp: gentx_view_def)

lemma spec_add_account_view:
  "spec_add_account coin a n = (r, n1) \<Longrightarrow> n_args n1 = n_args n \<and> gentx_view n1 = gentx_view n"
  unfolding spec_add_account_def by (auto simp: gentx_view_def split: option.splits)

lemma spec_copy_genesis_view:
  "spec_copy_genesis_from other n = (r, n1) \<Longrightarrow>
   n_args n1 = n_args n \<and> gentx_view n1 = gentx_view n \<and> (case r of Inr _ \<Rightarrow> funded n1 = funded other | Inl _ \<Rightarrow> n1 = n)"
  unfolding spec_copy_genesis_from_def funded_def by (auto simp: gentx_view_def split: option.splits)

lemma spec_add_validator_view:
  "spec_add_validator env coin a n = (r, n1) \<Longrightarrow>
   n_args n1 = n_args n \<and> funded n1 = funded n \<and>
   (case r of Inr _ \<Rightarrow> gentx_view n1 = AList.update (gentx_file_of n) (a, coin) (gentx_view n) | Inl _ \<Rightarrow> n1 = n)"
  unfolding spec_add_validator_def funded_def
  by (auto simp: gentx_view_update split: if_splits)

lemma spec_copy_gentx_view:
  "spec_copy_gentx_from other n = (r, n1) \<Longrightarrow>
   n_args n1 = n_args n \<and> funded n1 = funded n \<and>
   (case r of
      Inr _ \<Rightarrow> (\<exists>v. map_of (gentx_view other) (gentx_file_of other) = Some v \<and>
                  gentx_view n1 = AList.update (gentx_file_of other) v (gentx_view n))
    | Inl _ \<Rightarrow> n1 = n)"
  unfolding spec_copy_gentx_from_def funded_def
  by (auto simp: gentx_view_update gentx_view_lookup split: option.splits)

lemma spec_collect_view:
  "spec_collect_gentx n = (r, n1) \<Longrightarrow>
   n_args n1 = n_args n \<and> funded n1 = funded n \<and> gentx_view n1 = gentx_view n \<and>
   (case r of
      Inr _ \<Rightarrow> (\<exists>g. n_genesis n1 = Some g \<and> gen_txs g = map snd (n_gentx n1))
    | Inl _ \<Rightarrow> n1 = n)"
  unfolding spec_collect_gentx_def funded_def
  by (auto simp: gentx_view_def split: option.splits if_splits)

lemma an_on_node:
  "(\<And>n r n1. Q nid n \<Longrightarrow> f n = (r, n1) \<Longrightarrow> Q nid n1) \<Longrightarrow> inv (all_nodes Q) (on_node nid c f)"
  unfolding inv_def
  by (rule triple_on_node) (auto simp: all_nodes_def update_conv' split: if_splits, blast+)

lemma an_on_node_from:
  "(\<And>m n r n1. Q nid n \<Longrightarrow> Q other m \<Longrightarrow> f m n = (r, n1) \<Longrightarrow> Q nid n1) \<Longrightarrow>
   inv (all_nodes Q) (on_node_from nid other c f)"
  unfolding inv_def
  by (rule triple_on_node_from) (auto simp: all_nodes_def update_conv' split: if_splits, blast+)

lemma an_ask_node: "inv (all_nodes Q) (ask_node nid c g)"
  unfolding inv_def triple_def ask_node_def
  by (auto split: option.splits sum.splits simp: all_nodes_def)

lemmas an_intros = inv_intros an_ask_node

lemma steadyD:
  "steady Q \<Longrightarrow> Q k n \<Longrightarrow> n_args n1 = n_args n \<and> funded n1 = funded n \<and> gentx_view n1 = gentx_view n \<Longrightarrow> Q k n1"
  unfolding steady_def by blast

lemma an_set: "steady Q \<Longrightarrow> inv (all_nodes Q) (on_node nid c (spec_set file v key))"
  by (rule an_on_node) (blast intro: steadyD dest: spec_set_view)

lemma an_update: "steady Q \<Longrightarrow> inv (all_nodes Q) (on_node nid c (spec_update file g key))"
  by (rule an_on_node) (blast intro: steadyD dest: spec_update_view)

lemma an_sign: "steady Q \<Longrightarrow> inv (all_nodes Q) (on_node nid c (spec_sign a p))"
  by (rule an_on_node) (blast intro: steadyD dest: spec_sign_view)

lemma an_add_key: "steady Q \<Longrightarrow> inv (all_nodes Q) (on_node nid c (spec_add_key a))"
  by (rule an_on_node) (blast intro: steadyD dest: spec_add_key_view)

lemma api_simps [simp]:
  "node_init (spec_api env) = spec_init env"
  "node_set (spec_api env) = spec_set"
  "node_get (spec_api env) = spec_get"
  "node_update (spec_api env) = spec_update"
  "node_add_account (spec_api env) = spec_add_account"
  "node_add_key (spec_api env) = spec_add_key"
  "node_add_validator (spec_api env) = spec_add_validator env"
  "node_sign (spec_api env) = spec_sign"
  "node_copy_genesis_from (spec_api env) = spec_copy_genesis_from"
  "node_copy_gentx_from (spec_api env) = spec_copy_gentx_from"
  "node_collect_gentx (spec_api env) = spec_collect_gentx"
  "new_node (spec_api env) = spec_new_node"
  by (simp_all add: spec_api_def)

lemma an_override: "steady Q \<Longrightarrow> inv (all_nodes Q) (override_genesis (spec_api env) lead cg)"
  unfolding override_genesis_def by (intro an_intros) (auto intro: an_set)

lemma an_overrides: "steady Q \<Longrightarrow> inv (all_nodes Q) (apply_overrides (spec_api env) n cn)"
  unfolding apply_overrides_def by (intro an_intros) (auto intro!: an_intros an_set)

lemma an_rewrite: "steady Q \<Longrightarrow> inv (all_nodes Q) (rewrite_ports (spec_api env) n ps)"
  unfolding rewrite_ports_def by (intro an_intros) (auto intro!: an_intros an_update)

lemma an_read: "inv (all_nodes Q) (read_ports api n)"
  unfolding read_ports_def by (intro an_intros)

lemma an_allocate: "inv (all_nodes Q) (allocate_ports api)"
proof -
  have "inv (all_nodes Q) (\<lambda>t. (get_free_ports api k, t, [GetFreePorts k (get_free_ports api k)]))" for k
    unfolding inv_def triple_def by (auto split: sum.splits simp: all_nodes_def)
  then show ?thesis
    unfolding allocate_ports_def by (intro an_intros)
qed

lemma an_configure_nodes:
  "steady Q \<Longrightarrow> inv (all_nodes Q) (configure_nodes (spec_api env) lead cn ks all_ports)"
proof (induction ks arbitrary: all_ports)
  case Nil
  show ?case by (simp add: inv_ret)
next
  case (Cons n ks)
  show ?case
    unfolding configure_nodes.simps
    by (intro an_intros an_overrides Cons.prems) (auto intro!: an_intros an_rewrite an_read Cons)
qed

lemma an_configure: "steady Q \<Longrightarrow> inv (all_nodes Q) (configure (spec_api env) lead cn)"
  unfolding configure_def by (intro an_intros an_allocate an_configure_nodes)

lemma an_fix_memo: "steady Q \<Longrightarrow> inv (all_nodes Q) (fix_memo (spec_api env) n acct p2p)"
  unfolding fix_memo_def
  by (intro an_intros) (auto intro!: an_intros an_update an_sign split: list.splits cfg_value.splits)

lemma inv_triple: "inv I m \<Longrightarrow> triple I m (\<lambda>_. I) (\<lambda>_ _. True)"
  unfolding inv_def by (erule triple_weaken) auto

lemma triple_run: "triple P m Q (\<lambda>_ _. True) \<Longrightarrow> P s [] \<Longrightarrow> m s = (Inr a, s1, cs) \<Longrightarrow> Q a s1 cs"
  using tripleD_ok [of P m Q "\<lambda>_ _. True" s "[]" a s1 cs] by simp

lemma all_nodes_tr: "all_nodes Q s tr \<Longrightarrow> all_nodes Q s tr1"
  by (simp add: all_nodes_def)

lemma all_nodes_mono: "all_nodes Q s tr \<Longrightarrow> (\<And>k n. Q k n \<Longrightarrow> Q1 k n) \<Longrightarrow> all_nodes Q1 s tr1"
  by (auto simp: all_nodes_def)

lemma all_nodes_conj: "all_nodes Q s tr \<Longrightarrow> all_nodes Q1 s tr \<Longrightarrow> all_nodes (\<lambda>k n. Q k n \<and> Q1 k n) s tr1"
  by (auto simp: all_nodes_def)

lemma all_nodes_keys: "has_nodes K s \<Longrightarrow> all_nodes (\<lambda>k n. k \<in> set K) s tr"
  by (force simp: all_nodes_def has_nodes_def dest: map_of_SomeD)

lemma an_run: "inv (all_nodes Q) m \<Longrightarrow> all_nodes Q s tr \<Longrightarrow> m s = (r, s1, cs) \<Longrightarrow> all_nodes Q s1 tr1"
  using invD [of "all_nodes Q" m s tr r s1 cs] by (simp add: all_nodes_def)

lemma an_step:
  assumes "\<And>n n1 a. Q nid n \<Longrightarrow> f n = (Inr a, n1) \<Longrightarrow> Q1 nid n1"
    and "\<And>k n. k \<noteq> nid \<Longrightarrow> Q k n \<Longrightarrow> Q1 k n"
  shows "triple (all_nodes Q) (on_node nid c f) (\<lambda>_. all_nodes Q1) (\<lambda>_ _. True)"
  by (rule triple_on_node) (auto simp: all_nodes_def update_conv' assms split: if_splits, (blast intro: assms)+)

lemma an_step_from:
  assumes "\<And>m n n1 a. Q nid n \<Longrightarrow> Q other m \<Longrightarrow> f m n = (Inr a, n1) \<Longrightarrow> Q1 nid n1"
    and "\<And>k n. k \<noteq> nid \<Longrightarrow> Q k n \<Longrightarrow> Q1 k n"
  shows "triple (all_nodes Q) (on_node_from nid other c f) (\<lambda>_. all_nodes Q1) (\<lambda>_ _. True)"
  by (rule triple_on_node_from) (auto simp: all_nodes_def update_conv' assms split: if_splits, (blast intro: assms)+)

lemma steady_unstaked: "steady unstaked"
  by (simp add: steady_def unstaked_def named_def)

lemma steady_staking: "steady (staking A coin b done)"
  by (simp add: steady_def staking_def named_def)

lemma created_unstaked: "all_nodes unstaked (created (spec_api env) t) tr"
proof -
  have "unstaked k n" if "map_of (nodes_of (spec_api env) t) k = Some n" for k n
    using that unfolding nodes_of_def
    by (auto simp: dict_of_map_of unstaked_def named_def spec_new_node_def gentx_view_def split: if_splits)
  then show ?thesis by (simp add: all_nodes_def created_def)
qed

lemma an_init: "inv (all_nodes unstaked) (init_nodes (spec_api env))"
  unfolding init_nodes_def
  by (intro an_intros an_on_node) (auto simp: unstaked_def named_def dest: spec_init_view)

lemma an_fund: "inv (all_nodes unstaked) (fund (spec_api env) lead coin dict)"
  unfolding fund_def
  by (intro an_intros an_on_node) (auto simp: unstaked_def named_def dest: spec_add_account_view)

lemma frame_self: "has_nodes K s \<Longrightarrow> frame s K s tr"
  unfolding has_nodes_def frame_def
proof -
  assume "\<exists>ns. validator_nodes s = Some ns \<and> map fst ns = K"
  then obtain ns where ns: "validator_nodes s = Some ns" "map fst ns = K" by blast
  have "s = s\<lparr>validator_nodes := Some ns\<rparr>" using ns(1) by (cases s) simp
  with ns(2) show "\<exists>ns. s = s\<lparr>validator_nodes := Some ns\<rparr> \<and> map fst ns = K" by blast
qed

lemma has_nodes_run:
  assumes "\<And>s0. inv (frame s0 K) m" and "has_nodes K s" and "m s = (r, s1, cs)"
  shows "has_nodes K s1"
proof -
  have "frame s K s1 []" by (rule frameD [OF assms(1) frame_self [OF assms(2)] assms(3)])
  then show ?thesis by (auto simp: frame_def has_nodes_def)
qed

lemma copy_genesis_funded:
  assumes run: "copy_genesis (spec_api env) lead s = (Inr (), s1, cs)"
    and h: "has_nodes K s" and u: "all_nodes unstaked s []"
  shows "all_nodes (\<lambda>k n. unstaked k n \<and> funded n = lead_funded lead s) s1 tr"
proof -
  let ?b = "lead_funded lead s"
  let ?Q = "\<lambda>pre k n. unstaked k n \<and> (k = lead \<or> k \<in> set pre \<longrightarrow> funded n = ?b)"
  let ?body = "\<lambda>node_id. if node_id \<noteq> lead
             then on_node_from node_id lead (CopyGenesisFrom node_id lead) (node_copy_genesis_from (spec_api env))
             else ret ()"
  from h obtain ns where ns: "validator_nodes s = Some ns" "map fst ns = K"
    by (auto simp: has_nodes_def)
  have run': "for_each K ?body s = (Inr (), s1, cs)"
    using run ns by (simp add: copy_genesis_def bnd_def attr_def)
  have body: "triple (all_nodes (?Q pre)) (?body x) (\<lambda>_. all_nodes (?Q (pre @ [x]))) (\<lambda>_ _. True)" for pre x
  proof (cases "x = lead")
    case True
    have "all_nodes (?Q (pre @ [lead])) sa tra" if "all_nodes (?Q pre) sa tra" for sa tra
      using that by (simp add: all_nodes_def)
    then show ?thesis using True by (simp add: triple_ret)
  next
    case False
    have "triple (all_nodes (?Q pre)) (on_node_from x lead (CopyGenesisFrom x lead) spec_copy_genesis_from)
            (\<lambda>_. all_nodes (?Q (pre @ [x]))) (\<lambda>_ _. True)"
    proof (rule an_step_from)
      fix m n n1 :: Node and a :: unit
      assume 1: "?Q pre x n" and 2: "?Q pre lead m" and 3: "spec_copy_genesis_from m n = (Inr a, n1)"
      from spec_copy_genesis_view [OF 3] have "n_args n1 = n_args n" "gentx_view n1 = gentx_view n" "funded n1 = funded m"
        by simp_all
      with 1 2 show "?Q (pre @ [x]) x n1" by (simp add: unstaked_def named_def)
    next
      fix k n assume "k \<noteq> x" "?Q pre k n"
      then show "?Q (pre @ [x]) k n" by simp
    qed
    with False show ?thesis by simp
  qed
  have "triple (all_nodes (?Q [])) (for_each K ?body) (\<lambda>_. all_nodes (?Q K)) (\<lambda>_ _. True)"
    by (rule triple_for_each_ix [where I = "\<lambda>pre. all_nodes (?Q pre)"]) (rule body)
  moreover have "all_nodes (?Q []) s []"
    using u ns by (auto simp: all_nodes_def lead_funded_def)
  ultimately have "all_nodes (?Q K) s1 cs"
    using run' by (rule triple_run)
  moreover have "has_nodes K s1"
    by (rule has_nodes_run [OF fr_copy_genesis h run])
  then have "all_nodes (\<lambda>k n. k \<in> set K) s1 cs" by (rule all_nodes_keys)
  ultimately show ?thesis
    by (auto simp: all_nodes_def)
qed

lemma named_file: "named k n \<Longrightarrow> gentx_file_of n = gentx_name k"
  by (simp add: named_def gentx_file_of_def gentx_name_def)

lemma steady_conj: "steady Q \<Longrightarrow> steady Q1 \<Longrightarrow> steady (\<lambda>k n. Q k n \<and> Q1 k n)"
  unfolding steady_def by blast

lemma steady_funded: "steady (\<lambda>k n. funded n = b)"
  by (simp add: steady_def)

lemma stake_node_runs:
  assumes "stake_node api lead coin nid s = (Inr (), s1, c)" and "validators s = Some vs"
  obtains acct sa sb ca cb cc where "map_of vs nid = Some acct"
    "on_node nid (AddKey nid acct) (node_add_key api acct) s = (Inr (), sa, ca)"
    "on_node nid (AddValidator nid coin acct) (node_add_validator api coin acct) sa = (Inr (), sb, cb)"
    "(if nid \<noteq> lead then fix_memo api nid acct
          \<lparr>title = ''P2P'', config_file = ''config/config.toml'', property_path = ''p2p.laddr''\<rparr> else ret ()) sb = (Inr (), s1, cc)"
proof -
  from assms obtain acct where acct: "map_of vs nid = Some acct"
    by (cases "map_of vs nid") (auto simp: stake_node_def bnd_def attr_def throw_def)
  from assms acct obtain sa sb ca cb cc where
    k: "on_node nid (AddKey nid acct) (node_add_key api acct) s = (Inr (), sa, ca)"
    and v: "on_node nid (AddValidator nid coin acct) (node_add_validator api coin acct) sa = (Inr (), sb, cb)"
    and rest: "(if nid \<noteq> lead then fix_memo api nid acct
          \<lparr>title = ''P2P'', config_file = ''config/config.toml'', property_path = ''p2p.laddr''\<rparr> else ret ()) sb = (Inr (), s1, cc)"
    unfolding stake_node_def by (auto simp: bnd_def attr_def p2p_port split: prod.splits sum.splits)
  show ?thesis by (rule that [OF acct k v rest])
qed

lemma stake_node_staked:
  assumes run: "stake_node (spec_api env) lead coin x s = (Inr (), s1, c)"
    and vs: "validators s = Some vs" and x: "x \<notin> set pre"
    and st: "all_nodes (staking (\<lambda>k. the (map_of vs k)) coin b pre) s tr"
  shows "all_nodes (staking (\<lambda>k. the (map_of vs k)) coin b (pre @ [x])) s1 tr1"
proof -
  let ?A = "\<lambda>k. the (map_of vs k)"
  obtain acct sa sb ca cb cc where acct: "map_of vs x = Some acct"
    and k: "on_node x (AddKey x acct) (node_add_key (spec_api env) acct) s = (Inr (), sa, ca)"
    and v: "on_node x (AddValidator x coin acct) (node_add_validator (spec_api env) coin acct) sa = (Inr (), sb, cb)"
    and rest: "(if x \<noteq> lead then fix_memo (spec_api env) x acct
          \<lparr>title = ''P2P'', config_file = ''config/config.toml'', property_path = ''p2p.laddr''\<rparr> else ret ()) sb = (Inr (), s1, cc)"
    by (rule stake_node_runs [OF run vs])
  have k': "on_node x (AddKey x acct) (spec_add_key acct) s = (Inr (), sa, ca)" using k by simp
  have v': "on_node x (AddValidator x coin acct) (spec_add_validator env coin acct) sa = (Inr (), sb, cb)"
    using v by simp
  have a: "all_nodes (staking ?A coin b pre) sa []"
    by (rule an_run [OF an_add_key [OF steady_staking] st k'])
  have step: "triple (all_nodes (staking ?A coin b pre))
      (on_node x (AddValidator x coin acct) (spec_add_validator env coin acct))
      (\<lambda>_. all_nodes (staking ?A coin b (pre @ [x]))) (\<lambda>_ _. True)"
  proof (rule an_step)
    fix n n1 :: Node and u :: unit
    assume 1: "staking ?A coin b pre x n" and 2: "spec_add_validator env coin acct n = (Inr u, n1)"
    from spec_add_validator_view [OF 2]
    have "n_args n1 = n_args n" "funded n1 = funded n"
      "gentx_view n1 = AList.update (gentx_file_of n) (acct, coin) (gentx_view n)" by simp_all
    moreover have "gentx_file_of n = gentx_name x" using 1 by (simp add: staking_def named_file)
    ultimately show "staking ?A coin b (pre @ [x]) x n1"
      using 1 x acct by (simp add: staking_def named_def)
  next
    fix k n assume "k \<noteq> x" "staking ?A coin b pre k n"
    then show "staking ?A coin b (pre @ [x]) k n" by (simp add: staking_def)
  qed
  have b: "all_nodes (staking ?A coin b (pre @ [x])) sb cb"
    by (rule triple_run [OF step a v'])
  show ?thesis
  proof (cases "x = lead")
    case True
    with rest have "s1 = sb" by (simp add: ret_def)
    with b show ?thesis by (simp add: all_nodes_def)
  next
    case False
    with rest have "fix_memo (spec_api env) x acct
          \<lparr>title = ''P2P'', config_file = ''config/config.toml'', property_path = ''p2p.laddr''\<rparr> sb = (Inr (), s1, cc)" by simp
    from an_run [OF an_fix_memo [OF steady_staking] b this] show ?thesis .
  qed
qed

lemma frame_validators: "frame s0 K s tr \<Longrightarrow> validators s = validators s0"
  by (auto simp: frame_def)

lemma frame_nodes: "frame s0 K s tr \<Longrightarrow> has_nodes K s"
  by (auto simp: frame_def has_nodes_def)

lemma stake_staked:
  assumes run: "stake (spec_api env) lead coin s = (Inr (), s1, cs)"
    and f: "frame s0 K s []" and d: "distinct K" and v: "validators s0 = Some vs"
    and u: "all_nodes (\<lambda>k n. unstaked k n \<and> funded n = b) s []"
  shows "all_nodes (staking (\<lambda>k. the (map_of vs k)) coin b K) s1 tr"
proof -
  let ?A = "\<lambda>k. the (map_of vs k)"
  let ?I = "\<lambda>pre s tr. frame s0 K s tr \<and> all_nodes (staking ?A coin b pre) s tr"
  from f obtain ns where ns: "validator_nodes s = Some ns" "map fst ns = K"
    by (auto simp: frame_def)
  have run': "for_each K (stake_node (spec_api env) lead coin) s = (Inr (), s1, cs)"
    using run ns by (simp add: stake_def bnd_def attr_def)
  have body: "triple (?I pre) (stake_node (spec_api env) lead coin x) (\<lambda>_. ?I (pre @ [x])) (\<lambda>_ _. True)"
    if "K = pre @ x # post" for pre x post
  proof (rule tripleI)
    fix s :: "Node Testnet" and tr a s1 c
    assume 1: "?I pre s tr" and 2: "stake_node (spec_api env) lead coin x s = (Inr a, s1, c)"
    have x: "x \<notin> set pre" using d that by auto
    have "frame s0 K s1 (tr @ c)" using frameD [OF fr_stake_node _ 2] 1 by blast
    moreover have fr: "frame s0 K s tr" and an: "all_nodes (staking ?A coin b pre) s tr" using 1 by simp_all
    have vs: "validators s = Some vs" using frame_validators [OF fr] v by simp
    have 3: "stake_node (spec_api env) lead coin x s = (Inr (), s1, c)" using 2 by simp
    have "all_nodes (staking ?A coin b (pre @ [x])) s1 (tr @ c)"
      by (rule stake_node_staked [OF 3 vs x an])
    ultimately show "?I (pre @ [x]) s1 (tr @ c)" by simp
  qed simp
  have "triple (?I []) (for_each K (stake_node (spec_api env) lead coin)) (\<lambda>_. ?I K) (\<lambda>_ _. True)"
    by (rule triple_for_each_ix [where I = ?I]) (rule body)
  moreover have "all_nodes (staking ?A coin b []) s []"
    using u by (simp add: all_nodes_def staking_def unstaked_def)
  with f have "?I [] s []" by simp
  ultimately have "?I K s1 cs"
    using run' by (rule triple_run)
  then show ?thesis by (simp add: all_nodes_def)
qed

lemma gentx_name_inj: "inj_on show_id (set K) \<Longrightarrow> a \<in> set K \<Longrightarrow> b \<in> set K \<Longrightarrow> gentx_name a = gentx_name b \<Longrightarrow> a = b"
  by (auto simp: gentx_name_def inj_on_def)

lemma set_update_canon:
  "x \<in> set (AList.update k v xs) \<Longrightarrow> x = (k, v) \<or> x \<in> set xs"
  by (induction xs) (auto split: if_splits)

lemma exchanging_has:
  "exchanging A coin b K D k n \<Longrightarrow> j \<in> set K \<Longrightarrow> j = k \<or> j \<in> D k \<Longrightarrow>
   map_of (gentx_view n) (gentx_name j) = Some (A j, coin)"
  unfolding exchanging_def by blast

lemma exchanging_own:
  "exchanging A coin b K D k n \<Longrightarrow> map_of (gentx_view n) (gentx_name k) = Some (A k, coin)"
  unfolding exchanging_def by blast

lemma exchanging_canon:
  "exchanging A coin b K D k n \<Longrightarrow> (f, v) \<in> set (gentx_view n) \<Longrightarrow>
   \<exists>j \<in> set K. f = gentx_name j \<and> v = (A j, coin)"
  unfolding exchanging_def by blast

lemma exchanging_fields:
  "exchanging A coin b K D k n \<Longrightarrow> k \<in> set K \<and> named k n \<and> funded n = b"
  unfolding exchanging_def by blast

lemma exchangingI:
  "k \<in> set K \<Longrightarrow> named k n \<Longrightarrow> funded n = b \<Longrightarrow>
   (\<And>f v. (f, v) \<in> set (gentx_view n) \<Longrightarrow> \<exists>j \<in> set K. f = gentx_name j \<and> v = (A j, coin)) \<Longrightarrow>
   (\<And>j. j \<in> set K \<Longrightarrow> j = k \<or> j \<in> D k \<Longrightarrow> map_of (gentx_view n) (gentx_name j) = Some (A j, coin)) \<Longrightarrow>
   exchanging A coin b K D k n"
  unfolding exchanging_def by blast

lemma import_step:
  assumes inj: "inj_on show_id (set K)" and ab: "a \<noteq> b"
  shows "triple (all_nodes (exchanging A coin bal K (imported K outer a inner)))
           (on_node_from a b (CopyGentxFrom a b) spec_copy_gentx_from)
           (\<lambda>_. all_nodes (exchanging A coin bal K (imported K outer a (inner @ [b])))) (\<lambda>_ _. True)"
proof (rule an_step_from)
  fix m n n1 :: Node and u :: unit
  assume 1: "exchanging A coin bal K (imported K outer a inner) a n"
    and 2: "exchanging A coin bal K (imported K outer a inner) b m"
    and 3: "spec_copy_gentx_from m n = (Inr u, n1)"
  from exchanging_fields [OF 1] have a: "a \<in> set K" "named a n" "funded n = bal" by simp_all
  from exchanging_fields [OF 2] have b: "b \<in> set K" "named b m" by simp_all
  from exchanging_own [OF 2] have own: "map_of (gentx_view m) (gentx_name b) = Some (A b, coin)" .
  from spec_copy_gentx_view [OF 3] obtain v where
    v: "map_of (gentx_view m) (gentx_file_of m) = Some v"
    and g: "gentx_view n1 = AList.update (gentx_file_of m) v (gentx_view n)"
    and r: "n_args n1 = n_args n" "funded n1 = funded n" by auto
  have fm: "gentx_file_of m = gentx_name b" using b(2) by (rule named_file)
  have vv: "v = (A b, coin)" using v own fm by simp
  have g': "gentx_view n1 = AList.update (gentx_name b) (A b, coin) (gentx_view n)"
    using g fm vv by simp
  have na: "named a n1" using a(2) r(1) by (simp add: named_def)
  show "exchanging A coin bal K (imported K outer a (inner @ [b])) a n1"
  proof (rule exchangingI [OF a(1) na])
    show "funded n1 = bal" using r(2) a(3) by simp
  next
    fix f v assume "(f, v) \<in> set (gentx_view n1)"
    then have "(f, v) = (gentx_name b, A b, coin) \<or> (f, v) \<in> set (gentx_view n)"
      unfolding g' by (rule set_update_canon)
    then show "\<exists>j \<in> set K. f = gentx_name j \<and> v = (A j, coin)"
      using exchanging_canon [OF 1, of f v] b(1) by blast
  next
    fix j assume j: "j \<in> set K" "j = a \<or> j \<in> imported K outer a (inner @ [b]) a"
    show "map_of (gentx_view n1) (gentx_name j) = Some (A j, coin)"
    proof (cases "j = b")
      case True
      then show ?thesis unfolding g' by (simp add: update_conv')
    next
      case False
      then have ne: "gentx_name j \<noteq> gentx_name b"
        using gentx_name_inj [OF inj j(1) b(1)] by blast
      from j(2) False have "j = a \<or> j \<in> imported K outer a inner a"
        by (auto simp: imported_def split: if_splits)
      from exchanging_has [OF 1 j(1) this] ne show ?thesis unfolding g' by (simp add: update_conv')
    qed
  qed
next
  fix k n assume k: "k \<noteq> a" and e: "exchanging A coin bal K (imported K outer a inner) k n"
  have "imported K outer a (inner @ [b]) k = imported K outer a inner k"
    using k by (simp add: imported_def)
  with e show "exchanging A coin bal K (imported K outer a (inner @ [b])) k n"
    by (simp add: exchanging_def)
qed

lemma exchanging_mono:
  assumes "exchanging A coin b K D k n" and "\<And>j. j \<in> D1 k \<Longrightarrow> j = k \<or> j \<in> D k"
  shows "exchanging A coin b K D1 k n"
proof -
  from exchanging_fields [OF assms(1)] have f: "k \<in> set K" "named k n" "funded n = b" by simp_all
  show ?thesis
  proof (rule exchangingI [OF f])
    fix f v assume "(f, v) \<in> set (gentx_view n)"
    then show "\<exists>j \<in> set K. f = gentx_name j \<and> v = (A j, coin)" by (rule exchanging_canon [OF assms(1)])
  next
    fix j assume "j \<in> set K" "j = k \<or> j \<in> D1 k"
    then show "map_of (gentx_view n) (gentx_name j) = Some (A j, coin)"
      using exchanging_has [OF assms(1), of j] assms(2) [of j] by blast
  qed
qed

lemma staking_exchanging:
  assumes "staking A coin b K k n" and "k \<in> set K"
  shows "exchanging A coin b K (imported K [] a []) k n"
  using assms by (intro exchangingI) (auto simp: staking_def imported_def split: if_splits)

lemma fr_exchange_row:
  "inv (frame s0 K) (bnd (attr validator_nodes) (\<lambda>ns_b. for_each (map fst ns_b) (\<lambda>id_b.
       if id_a \<noteq> id_b then on_node_from id_a id_b (CopyGentxFrom id_a id_b) (node_copy_gentx_from api)
       else ret ())))"
  by (intro fr_intros) (auto intro!: fr_intros)

lemma exchange_row:
  assumes run: "bnd (attr validator_nodes) (\<lambda>ns_b. for_each (map fst ns_b) (\<lambda>id_b.
       if a \<noteq> id_b then on_node_from a id_b (CopyGentxFrom a id_b) (node_copy_gentx_from (spec_api env))
       else ret ())) s = (Inr (), s1, c)"
    and h: "has_nodes K s" and inj: "inj_on show_id (set K)"
    and ex: "all_nodes (exchanging A coin b K (imported K outer a [])) s tr"
  shows "all_nodes (exchanging A coin b K (imported K outer a K)) s1 tr1"
proof -
  let ?inner = "\<lambda>id_b. if a \<noteq> id_b then on_node_from a id_b (CopyGentxFrom a id_b) (node_copy_gentx_from (spec_api env))
       else ret ()"
  let ?I = "\<lambda>inner. all_nodes (exchanging A coin b K (imported K outer a inner))"
  from h obtain ns where ns: "validator_nodes s = Some ns" "map fst ns = K"
    by (auto simp: has_nodes_def)
  have run': "for_each K ?inner s = (Inr (), s1, c)"
    using run ns by (simp add: bnd_def attr_def)
  have body: "triple (?I inner) (?inner x) (\<lambda>_. ?I (inner @ [x])) (\<lambda>_ _. True)" for inner x
  proof (cases "a = x")
    case True
    have "?I (inner @ [a]) sa tra" if "?I inner sa tra" for sa tra
      using that
    proof (rule all_nodes_mono)
      fix k n assume "exchanging A coin b K (imported K outer a inner) k n"
      then show "exchanging A coin b K (imported K outer a (inner @ [a])) k n"
        by (rule exchanging_mono) (auto simp: imported_def split: if_splits)
    qed
    then show ?thesis using True by (simp add: triple_ret)
  next
    case False
    then show ?thesis using import_step [OF inj False, of A coin b outer inner] by simp
  qed
  have "triple (?I []) (for_each K ?inner) (\<lambda>_. ?I K) (\<lambda>_ _. True)"
    by (rule triple_for_each_ix [where I = ?I]) (rule body)
  moreover have "?I [] s []" using ex by (rule all_nodes_tr)
  ultimately have "?I K s1 c" using run' by (rule triple_run)
  then show ?thesis by (rule all_nodes_tr)
qed

lemma exchange_complete:
  assumes run: "exchange_gentx (spec_api env) s = (Inr (), s1, cs)"
    and f: "frame s0 K s []" and inj: "inj_on show_id (set K)"
    and st: "all_nodes (staking A coin b K) s []"
  shows "all_nodes (exchanging A coin b K (\<lambda>_. set K)) s1 tr"
proof -
  let ?row = "\<lambda>id_a. bnd (attr validator_nodes) (\<lambda>ns_b. for_each (map fst ns_b) (\<lambda>id_b.
       if id_a \<noteq> id_b then on_node_from id_a id_b (CopyGentxFrom id_a id_b) (node_copy_gentx_from (spec_api env))
       else ret ()))"
  let ?I = "\<lambda>outer s tr. frame s0 K s tr \<and> all_nodes (exchanging A coin b K (imported K outer (hd K) [])) s tr"
  from f obtain ns where ns: "validator_nodes s = Some ns" "map fst ns = K"
    by (auto simp: frame_def)
  have run': "for_each K ?row s = (Inr (), s1, cs)"
    using run ns by (simp add: exchange_gentx_def bnd_def attr_def)
  have body: "triple (?I outer) (?row a) (\<lambda>_. ?I (outer @ [a])) (\<lambda>_ _. True)" for outer a
  proof (rule tripleI)
    fix s :: "Node Testnet" and tr u s1 c
    assume 1: "?I outer s tr" and 2: "?row a s = (Inr u, s1, c)"
    from 1 have fr: "frame s0 K s tr" and ex: "all_nodes (exchanging A coin b K (imported K outer (hd K) [])) s tr"
      by simp_all
    have fr1: "frame s0 K s1 (tr @ c)" by (rule frameD [OF fr_exchange_row fr 2])
    have ex': "all_nodes (exchanging A coin b K (imported K outer a [])) s tr"
      using ex
    proof (rule all_nodes_mono)
      fix k n assume "exchanging A coin b K (imported K outer (hd K) []) k n"
      then show "exchanging A coin b K (imported K outer a []) k n"
        by (rule exchanging_mono) (auto simp: imported_def split: if_splits)
    qed
    have 3: "?row a s = (Inr (), s1, c)" using 2 by simp
    have "all_nodes (exchanging A coin b K (imported K outer a K)) s1 (tr @ c)"
      by (rule exchange_row [OF 3 frame_nodes [OF fr] inj ex'])
    then have "all_nodes (exchanging A coin b K (imported K (outer @ [a]) (hd K) [])) s1 (tr @ c)"
    proof (rule all_nodes_mono)
      fix k n assume "exchanging A coin b K (imported K outer a K) k n"
      then show "exchanging A coin b K (imported K (outer @ [a]) (hd K) []) k n"
        by (rule exchanging_mono) (auto simp: imported_def split: if_splits)
    qed
    with fr1 show "?I (outer @ [a]) s1 (tr @ c)" by simp
  qed simp
  have "triple (?I []) (for_each K ?row) (\<lambda>_. ?I K) (\<lambda>_ _. True)"
    by (rule triple_for_each_ix [where I = ?I]) (rule body)
  moreover have "all_nodes (exchanging A coin b K (imported K [] (hd K) [])) s []"
  proof -
    have "all_nodes (\<lambda>k n. staking A coin b K k n \<and> k \<in> set K) s []"
      by (rule all_nodes_conj [OF st all_nodes_keys [OF frame_nodes [OF f]]])
    then show ?thesis
      by (rule all_nodes_mono) (simp add: staking_exchanging)
  qed
  with f have "?I [] s []" by simp
  ultimately have "?I K s1 cs" using run' by (rule triple_run)
  then have "all_nodes (exchanging A coin b K (imported K K (hd K) [])) s1 cs" by simp
  then show ?thesis
  proof (rule all_nodes_mono)
    fix k n assume e: "exchanging A coin b K (imported K K (hd K) []) k n"
    from exchanging_fields [OF e] have "k \<in> set K" by simp
    with e show "exchanging A coin b K (\<lambda>_. set K) k n"
      by (elim exchanging_mono) (auto simp: imported_def)
  qed
qed

lemma collect_collected:
  assumes run: "collect_all (spec_api env) s = (Inr (), s1, cs)" and h: "has_nodes K s"
    and q: "all_nodes Q s []" and sq: "steady Q"
  shows "all_nodes (\<lambda>k n. Q k n \<and> collected n) s1 tr"
proof -
  let ?I = "\<lambda>pre. all_nodes (\<lambda>k n. Q k n \<and> (k \<in> set pre \<longrightarrow> collected n))"
  let ?body = "\<lambda>nid. on_node nid (CollectGentx nid) spec_collect_gentx"
  from h obtain ns where ns: "validator_nodes s = Some ns" "map fst ns = K"
    by (auto simp: has_nodes_def)
  have run': "for_each K ?body s = (Inr (), s1, cs)"
    using run ns by (simp add: collect_all_def bnd_def attr_def)
  have body: "triple (?I pre) (?body x) (\<lambda>_. ?I (pre @ [x])) (\<lambda>_ _. True)" for pre x
  proof (rule an_step)
    fix n n1 :: Node and u :: unit
    assume 1: "Q x n \<and> (x \<in> set pre \<longrightarrow> collected n)" and 2: "spec_collect_gentx n = (Inr u, n1)"
    from spec_collect_view [OF 2] have v: "n_args n1 = n_args n \<and> funded n1 = funded n \<and> gentx_view n1 = gentx_view n"
      and c: "collected n1" by (auto simp: collected_def)
    from steadyD [OF sq _ v] 1 c show "Q x n1 \<and> (x \<in> set (pre @ [x]) \<longrightarrow> collected n1)" by simp
  next
    fix k n assume "k \<noteq> x" "Q k n \<and> (k \<in> set pre \<longrightarrow> collected n)"
    then show "Q k n \<and> (k \<in> set (pre @ [x]) \<longrightarrow> collected n)" by simp
  qed
  have "triple (?I []) (for_each K ?body) (\<lambda>_. ?I K) (\<lambda>_ _. True)"
    by (rule triple_for_each_ix [where I = ?I]) (rule body)
  moreover have "?I [] s []" using q by (simp add: all_nodes_def)
  ultimately have "?I K s1 cs" using run' by (rule triple_run)
  moreover have "has_nodes K s1" by (rule has_nodes_run [OF fr_collect h run])
  then have "all_nodes (\<lambda>k n. k \<in> set K) s1 cs" by (rule all_nodes_keys)
  ultimately show ?thesis by (auto simp: all_nodes_def)
qed

lemma steady_exchanging: "steady (exchanging A coin b K D)"
  by (simp add: steady_def exchanging_def named_def)

lemma exchanged_nodes:
  assumes h: "seq (ceremony_head (spec_api env) t) t = (Inr (), s10, ch)"
    and x: "exchange_gentx (spec_api env) s10 = (Inr (), s11, c11)"
    and inj: "inj_on show_id (set (validator_ids t))"
  shows "\<exists>b. all_nodes (exchanging (validator_account (spec_api env) t) (stake_coin t) b
           (node_keys (spec_api env) t) (\<lambda>_. set (node_keys (spec_api env) t))) s11 tr"
proof -
  let ?api = "spec_api env"
  let ?K = "node_keys ?api t"
  let ?lead = "lead_validator t"
  show ?thesis
  proof (rule head_Inr_runs [OF h])
  fix s4 s5 s6 s7 s8 s9 c4 c5 c6 c7 c8 c9 c10
  assume "mkdir ?api (data_dir t) = None" and
    p4: "init_nodes ?api (created ?api t) = (Inr (), s4, c4)"
    and p5: "override_genesis ?api ?lead (config_genesis t) s4 = (Inr (), s5, c5)"
    and p6: "fund ?api ?lead \<lparr>amount = account_balance t, coin_denom = denom t\<rparr> validators s5 = (Inr (), s6, c6)"
    and p7: "fund ?api ?lead \<lparr>amount = account_balance t, coin_denom = denom t\<rparr> accounts s6 = (Inr (), s7, c7)"
    and p8: "copy_genesis ?api ?lead s7 = (Inr (), s8, c8)"
    and p9: "configure ?api ?lead (config_node t) s8 = (Inr (), s9, c9)"
    and p10: "stake ?api ?lead \<lparr>amount = validator_balance t, coin_denom = denom t\<rparr> s9 = (Inr (), s10, c10)"
    and "ch = Mkdir (data_dir t) # c4 @ c5 @ c6 @ c7 @ c8 @ c9 @ c10"
    and "\<And>tr. frame (created ?api t) ?K s4 tr"
    and "\<And>tr. frame (created ?api t) ?K s5 tr"
    and "\<And>tr. frame (created ?api t) ?K s6 tr"
    and f7: "\<And>tr. frame (created ?api t) ?K s7 tr"
    and "\<And>tr. frame (created ?api t) ?K s8 tr"
    and f9: "\<And>tr. frame (created ?api t) ?K s9 tr"
    and f10: "\<And>tr. frame (created ?api t) ?K s10 tr"
  let ?b = "lead_funded ?lead s7"
  have u0: "all_nodes unstaked (created ?api t) []" by (rule created_unstaked)
  have u4: "all_nodes unstaked s4 []" by (rule an_run [OF an_init u0 p4])
  have u5: "all_nodes unstaked s5 []" by (rule an_run [OF an_override [OF steady_unstaked] u4 p5])
  have u6: "all_nodes unstaked s6 []" by (rule an_run [OF an_fund u5 p6])
  have u7: "all_nodes unstaked s7 []" by (rule an_run [OF an_fund u6 p7])
  have u8: "all_nodes (\<lambda>k n. unstaked k n \<and> funded n = ?b) s8 []"
    by (rule copy_genesis_funded [OF p8 frame_nodes [OF f7] u7])
  have st: "steady (\<lambda>k n. unstaked k n \<and> funded n = ?b)"
    by (rule steady_conj [OF steady_unstaked steady_funded])
  have u9: "all_nodes (\<lambda>k n. unstaked k n \<and> funded n = ?b) s9 []"
    by (rule an_run [OF an_configure [OF st] u8 p9])
  have v: "validators (created ?api t) = Some (validators_of ?api t)" by (simp add: created_def)
  have u10: "all_nodes (staking (\<lambda>k. the (map_of (validators_of ?api t) k)) \<lparr>amount = validator_balance t, coin_denom = denom t\<rparr> ?b ?K) s10 []"
    by (rule stake_staked [OF p10 f9 node_keys_distinct v u9])
  have inj': "inj_on show_id (set ?K)" using inj by (simp add: node_keys_set)
  have "all_nodes (exchanging (\<lambda>k. the (map_of (validators_of ?api t) k)) \<lparr>amount = validator_balance t, coin_denom = denom t\<rparr> ?b ?K (\<lambda>_. set ?K)) s11 tr"
    by (rule exchange_complete [OF x f10 inj' u10])
  then show ?thesis unfolding validator_account_def stake_coin_def by blast
  qed
qed

lemma seq_snoc:
  "seq (ps @ [q]) s =
     (case seq ps s of
        (Inl e, s1, c1) \<Rightarrow> (Inl e, s1, c1)
      | (Inr u, s1, c1) \<Rightarrow> (case q s1 of (r, s2, c2) \<Rightarrow> (r, s2, c1 @ c2)))"
proof (induction ps arbitrary: s)
  case Nil
  show ?case by (auto simp: bnd_def ret_def split: prod.splits sum.splits)
next
  case (Cons p ps)
  show ?case
    by (cases "p s" rule: prod_cases3) (auto simp: bnd_def Cons split: prod.splits sum.splits)
qed

lemma prepare_split:
  assumes "seq (ceremony_head api t @ [exchange_gentx api]) t = (Inr (), s, c)"
  shows "prepare api t = (case collect_all api s of (r, s1, c1) \<Rightarrow> (r, s1, c @ c1))"
proof -
  have "prepare api t = seq ((ceremony_head api t @ [exchange_gentx api]) @ [collect_all api]) t"
    by (simp add: prepare_def)
  also have "\<dots> = (case collect_all api s of (r, s1, c1) \<Rightarrow> (r, s1, c @ c1))"
    unfolding seq_snoc [of "ceremony_head api t @ [exchange_gentx api]"] assms by simp
  finally show ?thesis .
qed

lemma staged_runs:
  assumes "seq (ceremony_head api t @ [exchange_gentx api]) t = (Inr (), s, c)"
  obtains s10 ch c11 where "seq (ceremony_head api t) t = (Inr (), s10, ch)"
    "exchange_gentx api s10 = (Inr (), s, c11)"
proof -
  from assms [unfolded seq_snoc]
  obtain s10 ch c11 where "seq (ceremony_head api t) t = (Inr (), s10, ch)"
    "exchange_gentx api s10 = (Inr (), s, c11)"
    by (auto split: prod.splits sum.splits)
  then show ?thesis by (rule that)
qed

lemma exchanged_holds:
  assumes run: "seq (ceremony_head (spec_api env) t @ [exchange_gentx (spec_api env)]) t = (Inr (), s, c)"
    and inj: "inj_on show_id (set (validator_ids t))"
  shows "\<exists>ns. validator_nodes s = Some ns \<and> set (map fst ns) = set (validator_ids t) \<and>
          (\<forall>a \<in> set (validator_ids t). \<forall>b \<in> set (validator_ids t).
             \<exists>na nb e. map_of ns a = Some na \<and> map_of ns b = Some nb \<and>
               map_of (n_gentx na) (gentx_file_of nb) = Some e \<and>
               gt_validator e = Account_init (spec_api env) b ''val'' (account_seed t) \<and>
               gt_stake e = \<lparr>amount = validator_balance t, coin_denom = denom t\<rparr>)"
proof -
  let ?api = "spec_api env"
  let ?K = "node_keys ?api t"
  obtain s10 ch c11 where h: "seq (ceremony_head ?api t) t = (Inr (), s10, ch)"
    and x: "exchange_gentx ?api s10 = (Inr (), s, c11)"
    by (rule staged_runs [OF run])
  have f10: "frame (created ?api t) ?K s10 []" by (rule head_Inr_runs [OF h])
  have f11: "frame (created ?api t) ?K s []" by (rule frameD [OF fr_exchange f10 x])
  then obtain ns where ns: "validator_nodes s = Some ns" "map fst ns = ?K"
    by (auto simp: frame_def)
  from exchanged_nodes [OF h x inj, of "[]"] obtain bal where
    ex: "all_nodes (exchanging (validator_account ?api t) (stake_coin t) bal ?K (\<lambda>_. set ?K)) s []"
    by blast
  have keys: "set (map fst ns) = set (validator_ids t)" using ns(2) by (simp add: node_keys_set)
  have node: "\<exists>n. map_of ns k = Some n" if "k \<in> set (validator_ids t)" for k
  proof (cases "map_of ns k")
    case None
    then have "k \<notin> fst ` set ns" by (simp add: map_of_eq_None_iff)
    with that keys show ?thesis by simp
  qed simp
  have pair: "\<exists>na nb e. map_of ns a = Some na \<and> map_of ns b = Some nb \<and>
               map_of (n_gentx na) (gentx_file_of nb) = Some e \<and>
               gt_validator e = Account_init ?api b ''val'' (account_seed t) \<and>
               gt_stake e = \<lparr>amount = validator_balance t, coin_denom = denom t\<rparr>"
    if a: "a \<in> set (validator_ids t)" and b: "b \<in> set (validator_ids t)" for a b
  proof -
    from node [OF a] obtain na where na: "map_of ns a = Some na" by blast
    from node [OF b] obtain nb where nb: "map_of ns b = Some nb" by blast
    from ex ns(1) na have ea: "exchanging (validator_account ?api t) (stake_coin t) bal ?K (\<lambda>_. set ?K) a na"
      by (simp add: all_nodes_def)
    from ex ns(1) nb have eb: "exchanging (validator_account ?api t) (stake_coin t) bal ?K (\<lambda>_. set ?K) b nb"
      by (simp add: all_nodes_def)
    have bK: "b \<in> set ?K" using b by (simp add: node_keys_set)
    have "map_of (gentx_view na) (gentx_name b) = Some (validator_account ?api t b, stake_coin t)"
      using exchanging_has [OF ea bK] bK by simp
    then obtain e where e: "map_of (n_gentx na) (gentx_name b) = Some e"
      "gt_validator e = validator_account ?api t b" "gt_stake e = stake_coin t"
      by (auto simp: gentx_view_lookup)
    have "gentx_file_of nb = gentx_name b" using exchanging_fields [OF eb] by (simp add: named_file)
    moreover have "validator_account ?api t b = Account_init ?api b ''val'' (account_seed t)"
      by (simp add: validator_account_def validators_of_lookup [OF b])
    ultimately show ?thesis using na nb e by (simp add: stake_coin_def)
  qed
  from ns(1) keys pair show ?thesis by blast
qed

lemma prepared_genesis:
  assumes run: "prepare (spec_api env) t = (Inr (), t2, cs)"
    and inj: "inj_on show_id (set (validator_ids t))"
  shows "\<exists>ns bal. validator_nodes t2 = Some ns \<and> set (map fst ns) = set (validator_ids t) \<and>
          (\<forall>k n. map_of ns k = Some n \<longrightarrow>
             (\<exists>g. n_genesis n = Some g \<and> gen_balances g = bal \<and>
                validator_set g =
                  (\<lambda>v. (Account_init (spec_api env) v ''val'' (account_seed t),
                        \<lparr>amount = validator_balance t, coin_denom = denom t\<rparr>)) ` set (validator_ids t)))"
proof -
  let ?api = "spec_api env"
  let ?K = "node_keys ?api t"
  let ?A = "validator_account ?api t"
  show ?thesis
  proof (rule prepare_Inr_runs [OF run])
  fix s10 ch s11 c11 c12
  assume h: "seq (ceremony_head ?api t) t = (Inr (), s10, ch)"
    and x: "exchange_gentx ?api s10 = (Inr (), s11, c11)"
    and c: "collect_all ?api s11 = (Inr (), t2, c12)"
    and "cs = ch @ c11 @ c12"
    and "\<And>tr. frame (created ?api t) ?K s10 tr"
    and f11: "\<And>tr. frame (created ?api t) ?K s11 tr"
    and f12: "\<And>tr. frame (created ?api t) ?K t2 tr"
  from exchanged_nodes [OF h x inj, of "[]"] obtain b where
    ex: "all_nodes (exchanging ?A (stake_coin t) b ?K (\<lambda>_. set ?K)) s11 []"
    by blast
  have co: "all_nodes (\<lambda>k n. exchanging ?A (stake_coin t) b ?K (\<lambda>_. set ?K) k n \<and> collected n) t2 []"
    by (rule collect_collected [OF c frame_nodes [OF f11] ex steady_exchanging])
  from f12 [of "[]"] obtain ns where ns: "validator_nodes t2 = Some ns" "map fst ns = ?K"
    by (auto simp: frame_def)
  have keys: "set (map fst ns) = set (validator_ids t)" using ns(2) by (simp add: node_keys_set)
  have acct: "?A v = Account_init ?api v ''val'' (account_seed t)" if "v \<in> set (validator_ids t)" for v
    by (simp add: validator_account_def validators_of_lookup [OF that])
  have each: "\<exists>g. n_genesis n = Some g \<and> Some (gen_balances g) = b \<and>
                validator_set g =
                  (\<lambda>v. (Account_init ?api v ''val'' (account_seed t),
                        \<lparr>amount = validator_balance t, coin_denom = denom t\<rparr>)) ` set (validator_ids t)"
    if "map_of ns k = Some n" for k n
  proof -
    from co ns(1) that have e: "exchanging ?A (stake_coin t) b ?K (\<lambda>_. set ?K) k n" and col: "collected n"
      by (simp_all add: all_nodes_def)
    from col obtain g where g: "n_genesis n = Some g" "gen_txs g = map snd (n_gentx n)"
      by (auto simp: collected_def split: option.splits)
    have "funded n = b" using exchanging_fields [OF e] by simp
    with g(1) have bal: "Some (gen_balances g) = b" by (simp add: funded_def)
    have vs: "validator_set g = snd ` set (gentx_view n)"
      unfolding validator_set_def g(2) gentx_view_def by (force simp: image_iff)
    have "set (gentx_view n) = (\<lambda>j. (gentx_name j, ?A j, stake_coin t)) ` set ?K"
    proof (intro set_eqI iffI)
      fix x assume "x \<in> set (gentx_view n)"
      then have "(fst x, snd x) \<in> set (gentx_view n)" by simp
      from exchanging_canon [OF e this] obtain j where "j \<in> set ?K" "fst x = gentx_name j"
        "snd x = (?A j, stake_coin t)" by blast
      then have "j \<in> set ?K" "x = (gentx_name j, ?A j, stake_coin t)" by (simp_all add: prod_eq_iff)
      then show "x \<in> (\<lambda>j. (gentx_name j, ?A j, stake_coin t)) ` set ?K" by blast
    next
      fix x assume "x \<in> (\<lambda>j. (gentx_name j, ?A j, stake_coin t)) ` set ?K"
      then obtain j where j: "j \<in> set ?K" "x = (gentx_name j, ?A j, stake_coin t)" by blast
      from exchanging_has [OF e j(1)] j(1)
      have "map_of (gentx_view n) (gentx_name j) = Some (?A j, stake_coin t)" by simp
      then show "x \<in> set (gentx_view n)" unfolding j(2) by (rule map_of_SomeD)
    qed
    then have "snd ` set (gentx_view n) = (\<lambda>j. (?A j, stake_coin t)) ` set ?K"
      by (simp add: image_image)
    also have "\<dots> = (\<lambda>v. (Account_init ?api v ''val'' (account_seed t),
                        \<lparr>amount = validator_balance t, coin_denom = denom t\<rparr>)) ` set (validator_ids t)"
      unfolding node_keys_set by (rule image_cong) (simp_all add: acct stake_coin_def)
    finally show ?thesis using g(1) bal vs by simp
  qed
  show ?thesis
  proof (cases b)
    case None
    with each have "map_of ns k \<noteq> Some n" for k n by fastforce
    with ns(1) keys show ?thesis by auto
  next
    case (Some bal)
    with each have "\<exists>g. n_genesis n = Some g \<and> gen_balances g = bal \<and>
                validator_set g =
                  (\<lambda>v. (Account_init ?api v ''val'' (account_seed t),
                        \<lparr>amount = validator_balance t, coin_denom = denom t\<rparr>)) ` set (validator_ids t)"
      if "map_of ns k = Some n" for k n using that by fastforce
    with ns(1) keys show ?thesis by blast
  qed
  qed
qed

lemma staged_of_prepare:
  assumes "prepare api t = (Inr (), t2, cs)"
  obtains s c where "seq (ceremony_head api t @ [exchange_gentx api]) t = (Inr (), s, c)"
proof -
  have "prepare api t = seq ((ceremony_head api t @ [exchange_gentx api]) @ [collect_all api]) t"
    by (simp add: prepare_def)
  with assms have "seq ((ceremony_head api t @ [exchange_gentx api]) @ [collect_all api]) t = (Inr (), t2, cs)"
    by simp
  then obtain s c where "seq (ceremony_head api t @ [exchange_gentx api]) t = (Inr (), s, c)"
    unfolding seq_snoc [of "ceremony_head api t @ [exchange_gentx api]"]
    by (auto split: prod.splits sum.splits)
  then show ?thesis by (rule that)
qed

lemma is_collect_iff: "is_collect c \<longleftrightarrow> (\<exists>m. c = CollectGentx m)"
  by (cases c) auto

text \<open>
  C4.  In every run of \<^verbatim>\<open>prepare\<close>, returned or raised, and whatever the node methods do:
  a call of \<^verbatim>\<open>collect_gentx\<close> comes after the call \<^verbatim>\<open>copy_gentx_from\<close> of every ordered
  pair of distinct validators, and only calls of \<^verbatim>\<open>collect_gentx\<close> follow it.  With the
  nodes of the specification, and validators whose names differ as strings: when the
  statements before line 275 have returned, \<^verbatim>\<open>prepare\<close> goes on with the collecting loop
  from a state in which every node holds, under the file name of every validator's node,
  a gentx of that validator with the declared stake.
\<close>

theorem collect_after_exchange:
  "(prepare api t = (r, t2, cs) \<longrightarrow>
      (\<forall>i n. i < length cs \<and> cs ! i = CollectGentx n \<longrightarrow>
         (\<forall>a \<in> set (validator_ids t). \<forall>b \<in> set (validator_ids t).
            a \<noteq> b \<longrightarrow> CopyGentxFrom a b \<in> set (take i cs)) \<and>
         (\<forall>j. i < j \<and> j < length cs \<longrightarrow> (\<exists>m. cs ! j = CollectGentx m))))
   \<and> (seq (ceremony_head (spec_api env) t @ [exchange_gentx (spec_api env)]) t = (Inr (), s, c) \<and>
       inj_on show_id (set (validator_ids t)) \<longrightarrow>
         prepare (spec_api env) t = (case collect_all (spec_api env) s of (r1, s1, c1) \<Rightarrow> (r1, s1, c @ c1)) \<and>
         (\<exists>ns. validator_nodes s = Some ns \<and> set (map fst ns) = set (validator_ids t) \<and>
            (\<forall>a \<in> set (validator_ids t). \<forall>b \<in> set (validator_ids t).
               \<exists>na nb e. map_of ns a = Some na \<and> map_of ns b = Some nb \<and>
                 map_of (n_gentx na) (gentx_file_of nb) = Some e \<and>
                 gt_validator e = Account_init (spec_api env) b ''val'' (account_seed t) \<and>
                 gt_stake e = \<lparr>amount = validator_balance t, coin_denom = denom t\<rparr>)))"
proof (intro conjI impI allI)
  fix i n
  assume run: "prepare api t = (r, t2, cs)" and i: "i < length cs \<and> cs ! i = CollectGentx n"
  from collect_position [OF run, of i n] i
  show "\<forall>a \<in> set (validator_ids t). \<forall>b \<in> set (validator_ids t).
            a \<noteq> b \<longrightarrow> CopyGentxFrom a b \<in> set (take i cs)" by blast
  fix j assume "i < j \<and> j < length cs"
  with collect_position [OF run, of i n] i have "is_collect (cs ! j)" by blast
  then show "\<exists>m. cs ! j = CollectGentx m" by (simp add: is_collect_iff)
next
  assume a: "seq (ceremony_head (spec_api env) t @ [exchange_gentx (spec_api env)]) t = (Inr (), s, c) \<and>
       inj_on show_id (set (validator_ids t))"
  then show "prepare (spec_api env) t = (case collect_all (spec_api env) s of (r1, s1, c1) \<Rightarrow> (r1, s1, c @ c1))"
    by (simp add: prepare_split)
  from a show "\<exists>ns. validator_nodes s = Some ns \<and> set (map fst ns) = set (validator_ids t) \<and>
            (\<forall>a \<in> set (validator_ids t). \<forall>b \<in> set (validator_ids t).
               \<exists>na nb e. map_of ns a = Some na \<and> map_of ns b = Some nb \<and>
                 map_of (n_gentx na) (gentx_file_of nb) = Some e \<and>
                 gt_validator e = Account_init (spec_api env) b ''val'' (account_seed t) \<and>
                 gt_stake e = \<lparr>amount = validator_balance t, coin_denom = denom t\<rparr>)"
    using exchanged_holds [of env t s c] by blast
qed

lemma demo_collect: "snd (snd (prepare (spec_api demo_env) fresh_testnet)) ! 45 = CollectGentx (IdInt 0)"
  by code_simp

lemma demo_length: "length (snd (snd (prepare (spec_api demo_env) fresh_testnet))) = 47"
  by code_simp

lemma demo_names: "inj_on show_id (set (validator_ids fresh_testnet))"
  by (simp add: fresh_testnet_def show_int_def show_digits.simps [of 0] show_digits.simps [of 1] digit_char_def)

theorem collect_after_exchange_witness:
  "fst (prepare (spec_api demo_env) fresh_testnet) = Inr ()
   \<and> snd (snd (prepare (spec_api demo_env) fresh_testnet)) ! 45 = CollectGentx (IdInt 0)
   \<and> CopyGentxFrom (IdInt 0) (IdInt 1) \<in> set (take 45 (snd (snd (prepare (spec_api demo_env) fresh_testnet))))
   \<and> CopyGentxFrom (IdInt 1) (IdInt 0) \<in> set (take 45 (snd (snd (prepare (spec_api demo_env) fresh_testnet))))
   \<and> (\<exists>m. snd (snd (prepare (spec_api demo_env) fresh_testnet)) ! 46 = CollectGentx m)
   \<and> (\<exists>s c ns na nb e.
         seq (ceremony_head (spec_api demo_env) fresh_testnet @ [exchange_gentx (spec_api demo_env)]) fresh_testnet
           = (Inr (), s, c) \<and>
         validator_nodes s = Some ns \<and> map_of ns (IdInt 0) = Some na \<and> map_of ns (IdInt 1) = Some nb \<and>
         map_of (n_gentx na) (gentx_file_of nb) = Some e \<and>
         gt_validator e = Account_init (spec_api demo_env) (IdInt 1) ''val'' (Some ''seed'') \<and>
         gt_stake e = \<lparr>amount = 10 ^ 21, coin_denom = ''stake''\<rparr>)"
proof -
  obtain t2 cs where run: "prepare (spec_api demo_env) fresh_testnet = (Inr (), t2, cs)"
    by (rule demo_run_obtain)
  obtain s c where st: "seq (ceremony_head (spec_api demo_env) fresh_testnet @ [exchange_gentx (spec_api demo_env)]) fresh_testnet
           = (Inr (), s, c)"
    by (rule staged_of_prepare [OF run])
  note th = collect_after_exchange [where api = "spec_api demo_env" and t = fresh_testnet and r = "Inr ()"
      and ?t2.0 = t2 and cs = cs and env = demo_env and s = s and c = c]
  have len: "length cs = 47" using demo_length run by simp
  have at: "cs ! 45 = CollectGentx (IdInt 0)" using demo_collect run by simp
  have i: "45 < length cs \<and> cs ! 45 = CollectGentx (IdInt 0)" using len at by simp
  have v0: "IdInt 0 \<in> set (validator_ids fresh_testnet)" and v1: "IdInt 1 \<in> set (validator_ids fresh_testnet)"
    by (simp_all add: fresh_testnet_def)
  note pos = th [THEN conjunct1, THEN mp, OF run, THEN spec, THEN spec, THEN mp, OF i]
  from pos [THEN conjunct1, THEN bspec, OF v0, THEN bspec, OF v1]
  have 1: "CopyGentxFrom (IdInt 0) (IdInt 1) \<in> set (take 45 cs)" by simp
  from pos [THEN conjunct1, THEN bspec, OF v1, THEN bspec, OF v0]
  have 2: "CopyGentxFrom (IdInt 1) (IdInt 0) \<in> set (take 45 cs)" by simp
  from pos [THEN conjunct2, THEN spec, of 46] len
  have 3: "\<exists>m. cs ! 46 = CollectGentx m" by simp
  note held = th [THEN conjunct2, THEN mp, OF conjI, OF st demo_names, THEN conjunct2]
  then obtain ns where ns: "validator_nodes s = Some ns"
    and all: "\<forall>a \<in> set (validator_ids fresh_testnet). \<forall>b \<in> set (validator_ids fresh_testnet).
               \<exists>na nb e. map_of ns a = Some na \<and> map_of ns b = Some nb \<and>
                 map_of (n_gentx na) (gentx_file_of nb) = Some e \<and>
                 gt_validator e = Account_init (spec_api demo_env) b ''val'' (account_seed fresh_testnet) \<and>
                 gt_stake e = \<lparr>amount = validator_balance fresh_testnet, coin_denom = denom fresh_testnet\<rparr>"
    by blast
  from all [THEN bspec, OF v0, THEN bspec, OF v1] obtain na nb e where
    "map_of ns (IdInt 0) = Some na" "map_of ns (IdInt 1) = Some nb"
    "map_of (n_gentx na) (gentx_file_of nb) = Some e"
    "gt_validator e = Account_init (spec_api demo_env) (IdInt 1) ''val'' (account_seed fresh_testnet)"
    "gt_stake e = \<lparr>amount = validator_balance fresh_testnet, coin_denom = denom fresh_testnet\<rparr>"
    by blast
  then have 4: "\<exists>s c ns na nb e.
         seq (ceremony_head (spec_api demo_env) fresh_testnet @ [exchange_gentx (spec_api demo_env)]) fresh_testnet
           = (Inr (), s, c) \<and>
         validator_nodes s = Some ns \<and> map_of ns (IdInt 0) = Some na \<and> map_of ns (IdInt 1) = Some nb \<and>
         map_of (n_gentx na) (gentx_file_of nb) = Some e \<and>
         gt_validator e = Account_init (spec_api demo_env) (IdInt 1) ''val'' (Some ''seed'') \<and>
         gt_stake e = \<lparr>amount = 10 ^ 21, coin_denom = ''stake''\<rparr>"
    using st ns by (simp add: fresh_testnet_def)
  from run 1 2 3 at 4 show ?thesis by simp
qed

section \<open>The genesis of every node\<close>

text \<open>Validators given as a count are the ints below it, and no two of them are written
  with the same digits: their nodes have different names.\<close>

lemma digit_char_inj:
  assumes "0 \<le> a" "a < 10" "0 \<le> b" "b < 10" "digit_char a = digit_char b"
  shows "a = b"
proof -
  have a: "a \<in> {0, 1, 2, 3, 4, 5, 6, 7, 8, 9}" using assms(1,2) by (simp; presburger)
  have b: "b \<in> {0, 1, 2, 3, 4, 5, 6, 7, 8, 9}" using assms(3,4) by (simp; presburger)
  from a b assms(5) show ?thesis by (auto simp: digit_char_def)
qed

lemma show_digits_ne: "show_digits i \<noteq> []"
  by (subst show_digits.simps) simp

lemma show_digits_inj: "0 \<le> i \<Longrightarrow> 0 \<le> j \<Longrightarrow> show_digits i = show_digits j \<Longrightarrow> i = j"
proof (induction i arbitrary: j rule: show_digits.induct)
  case (1 i)
  show ?case
  proof (cases "i < 10")
    case True
    show ?thesis
    proof (cases "j < 10")
      case j: True
      from "1.prems"(3) True j have "digit_char i = digit_char j"
        by (simp add: show_digits.simps [of i] show_digits.simps [of j])
      then show ?thesis using digit_char_inj "1.prems"(1,2) True j by blast
    next
      case j: False
      from "1.prems"(3) True j have "show_digits (j div 10) = []"
        by (simp add: show_digits.simps [of i] show_digits.simps [of j])
      then show ?thesis by (simp add: show_digits_ne)
    qed
  next
    case False
    show ?thesis
    proof (cases "j < 10")
      case j: True
      from "1.prems"(3) False j have "show_digits (i div 10) = []"
        by (simp add: show_digits.simps [of i] show_digits.simps [of j])
      then show ?thesis by (simp add: show_digits_ne)
    next
      case j: False
      from "1.prems"(3) False j have e: "show_digits (i div 10) = show_digits (j div 10)"
        "digit_char (i mod 10) = digit_char (j mod 10)"
        by (simp_all add: show_digits.simps [of i] show_digits.simps [of j])
      have "i div 10 = j div 10"
        using "1.IH" [OF False _ _ e(1)] "1.prems"(1,2) by simp
      moreover have "i mod 10 = j mod 10"
        using digit_char_inj [OF _ _ _ _ e(2)] by simp
      ultimately show ?thesis by (metis div_mult_mod_eq)
    qed
  qed
qed

lemma count_names: "inj_on show_id (set (ids_of (ArgInt n)))"
proof (rule inj_onI)
  fix x y assume "x \<in> set (ids_of (ArgInt n))" "y \<in> set (ids_of (ArgInt n))" "show_id x = show_id y"
  then obtain i j where "x = IdInt i" "y = IdInt j" "0 \<le> i" "0 \<le> j" "show_digits i = show_digits j"
    by (auto simp: show_int_def)
  then show "x = y" using show_digits_inj by simp
qed

text \<open>
  C1.  With the nodes of the specification, and validators whose names differ as strings:
  when \<^verbatim>\<open>prepare\<close> has returned, there is a node for every validator, and the genesis of
  every node encodes the same validator set (every validator's account with the declared
  stake) and funds the same balances.
\<close>

theorem genesis_agreement:
  "prepare (spec_api env) t = (Inr (), t2, cs) \<and> inj_on show_id (set (validator_ids t)) \<longrightarrow>
     (\<exists>ns bal. validator_nodes t2 = Some ns \<and> set (map fst ns) = set (validator_ids t) \<and>
        (\<forall>k n. map_of ns k = Some n \<longrightarrow>
           (\<exists>g. n_genesis n = Some g \<and> gen_balances g = bal \<and>
              validator_set g =
                (\<lambda>v. (Account_init (spec_api env) v ''val'' (account_seed t),
                      \<lparr>amount = validator_balance t, coin_denom = denom t\<rparr>)) ` set (validator_ids t))))"
  using prepared_genesis [of env t t2 cs] by blast

theorem genesis_agreement_witness:
  "fst (prepare (spec_api demo_env) fresh_testnet) = Inr ()
   \<and> (\<exists>ns n0 n1 g0 g1.
         validator_nodes (fst (snd (prepare (spec_api demo_env) fresh_testnet))) = Some ns \<and>
         map_of ns (IdInt 0) = Some n0 \<and> map_of ns (IdInt 1) = Some n1 \<and>
         n_genesis n0 = Some g0 \<and> n_genesis n1 = Some g1 \<and>
         validator_set g0 = validator_set g1 \<and> balance_set g0 = balance_set g1 \<and>
         (Account_init (spec_api demo_env) (IdInt 1) ''val'' (Some ''seed''), \<lparr>amount = 10 ^ 21, coin_denom = ''stake''\<rparr>)
           \<in> validator_set g0)"
proof -
  obtain t2 cs where run: "prepare (spec_api demo_env) fresh_testnet = (Inr (), t2, cs)"
    by (rule demo_run_obtain)
  from genesis_agreement [where env = demo_env and t = fresh_testnet and ?t2.0 = t2 and cs = cs,
      THEN mp, OF conjI, OF run demo_names]
  obtain ns bal where ns: "validator_nodes t2 = Some ns"
    and keys: "set (map fst ns) = set (validator_ids fresh_testnet)"
    and each: "\<forall>k n. map_of ns k = Some n \<longrightarrow>
           (\<exists>g. n_genesis n = Some g \<and> gen_balances g = bal \<and>
              validator_set g =
                (\<lambda>v. (Account_init (spec_api demo_env) v ''val'' (account_seed fresh_testnet),
                      \<lparr>amount = validator_balance fresh_testnet, coin_denom = denom fresh_testnet\<rparr>)) `
                  set (validator_ids fresh_testnet))"
    by blast
  have "IdInt 0 \<in> fst ` set ns" "IdInt 1 \<in> fst ` set ns"
    using keys by (simp_all add: fresh_testnet_def)
  then have "map_of ns (IdInt 0) \<noteq> None" "map_of ns (IdInt 1) \<noteq> None"
    by (simp_all add: map_of_eq_None_iff)
  then obtain n0 n1 where n: "map_of ns (IdInt 0) = Some n0" "map_of ns (IdInt 1) = Some n1"
    by blast
  from each [THEN spec, THEN spec, THEN mp, OF n(1)]
  obtain g0 where g0: "n_genesis n0 = Some g0" "gen_balances g0 = bal"
      "validator_set g0 = (\<lambda>v. (Account_init (spec_api demo_env) v ''val'' (account_seed fresh_testnet),
                      \<lparr>amount = validator_balance fresh_testnet, coin_denom = denom fresh_testnet\<rparr>)) `
                  set (validator_ids fresh_testnet)"
    by blast
  from each [THEN spec, THEN spec, THEN mp, OF n(2)]
  obtain g1 where g1: "n_genesis n1 = Some g1" "gen_balances g1 = bal"
      "validator_set g1 = (\<lambda>v. (Account_init (spec_api demo_env) v ''val'' (account_seed fresh_testnet),
                      \<lparr>amount = validator_balance fresh_testnet, coin_denom = denom fresh_testnet\<rparr>)) `
                  set (validator_ids fresh_testnet)"
    by blast
  have m: "(Account_init (spec_api demo_env) (IdInt 1) ''val'' (Some ''seed''), \<lparr>amount = 10 ^ 21, coin_denom = ''stake''\<rparr>)
           \<in> validator_set g0"
    unfolding g0(3) by (simp add: fresh_testnet_def)
  have e1: "validator_set g0 = validator_set g1" using g0(3) g1(3) by simp
  have e2: "balance_set g0 = balance_set g1" using g0(2) g1(2) by (simp add: balance_set_def)
  have r: "fst (prepare (spec_api demo_env) fresh_testnet) = Inr ()" using run by simp
  have s: "validator_nodes (fst (snd (prepare (spec_api demo_env) fresh_testnet))) = Some ns"
    using run ns by simp
  from r s n g0(1) g1(1) e1 e2 m show ?thesis by blast
qed

end
